theory Spec2Isabelle
  imports Complex_Main "HOL-Library.Word" "HOL-Library.Sublist"
begin

section \<open>S-box tables and the derived inverse\<close>

text \<open>
  The tables of the explorer are JavaScript arrays of integers that arrive as JSON
  (\<^verbatim>\<open>window.APP_DATA\<close>, the upload response, local storage).  A table is modelled as an
  \<open>int list\<close>.  Reading an array yields a JavaScript value: the number stored at the index,
  or \<^verbatim>\<open>undefined\<close> beyond the end of the array.
\<close>

datatype jsval = Undefined | Number int

definition sbox_at :: "int list \<Rightarrow> nat \<Rightarrow> jsval" where
  "sbox_at tab i = (if i < length tab then Number (tab ! i) else Undefined)"

text \<open>
  The inverse is built by writing into a fresh array at the keys read from the table.  A
  JavaScript array is an object: \<^verbatim>\<open>inv[k] = i\<close> stores \<open>i\<close> under the property named by
  \<open>k\<close>, whatever \<open>k\<close> is (an index inside or beyond the current length, a negative number,
  \<^verbatim>\<open>undefined\<close>), and \<^verbatim>\<open>inv[k]\<close> reads that property back, giving \<^verbatim>\<open>undefined\<close> when
  it was never written.  The array is therefore modelled by its property map; \<open>None\<close> is
  \<^verbatim>\<open>undefined\<close>.  Its \<^verbatim>\<open>length\<close> is never read by the program and is not modelled.
\<close>

type_synonym jsarray = "jsval \<Rightarrow> nat option"

text \<open>\<^verbatim>\<open>new Array(256)\<close>: 256 holes, no property set.\<close>

definition new_Array_256 :: jsarray where
  "new_Array_256 = (\<lambda>k. None)"

text \<open>\<^verbatim>\<open>new Array(256).fill(0)\<close>: the indices 0 to 255 hold 0.\<close>

definition new_Array_256_fill_0 :: jsarray where
  "new_Array_256_fill_0 =
     (\<lambda>k. case k of Undefined \<Rightarrow> None
               | Number n \<Rightarrow> if 0 \<le> n \<and> n < 256 then Some 0 else None)"

text \<open>The loop \<^verbatim>\<open>for (let i = 0; i < n; i++) inv[sbox[i]] = i\<close>, from a given array.\<close>

definition inverse_loop :: "int list \<Rightarrow> nat \<Rightarrow> jsarray \<Rightarrow> jsarray" where
  "inverse_loop tab n inv0 = fold (\<lambda>i arr. arr(sbox_at tab i \<mapsto> i)) [0..<n] inv0"

definition generateInverseSBox :: "int list \<Rightarrow> jsarray" where
  "generateInverseSBox tab = inverse_loop tab 256 new_Array_256"

definition generateInverseSBoxFromArray :: "int list \<Rightarrow> jsarray" where
  "generateInverseSBoxFromArray tab = inverse_loop tab 256 new_Array_256_fill_0"

text \<open>
  Modelled from the spec: the validation of a raw table (\<open>construct\<close> in the specification)
  is done by the upload endpoint of the server, which is not part of the client sources.
  The specification accepts a raw table when its length is exactly 256, every value is in
  \<open>[0,255]\<close> and every value occurs exactly once.
\<close>

definition is_bijection :: "int list \<Rightarrow> bool" where
  "is_bijection raw \<longleftrightarrow>
     length raw = 256 \<and> (\<forall>v \<in> set raw. 0 \<le> v \<and> v \<le> 255) \<and> distinct raw"

text \<open>The identity table \<open>[0, 1, ..., 255]\<close>.\<close>

definition identity_table :: "int list" where
  "identity_table = map int [0..<256]"

text \<open>
  The identity table with \<open>forward[3] = forward[7] = 10\<close>: the value 10 occurs three times
  (at the indices 3, 7 and 10), the values 3 and 7 are missing.
\<close>

definition duplicate_table :: "int list" where
  "duplicate_table = identity_table[3 := 10, 7 := 10]"

subsection \<open>Construction of a validated table\<close>

text \<open>
  The client has one failure of its own, the \<^verbatim>\<open>TypeError\<close> of reading a property of
  \<^verbatim>\<open>undefined\<close>.  \<open>NotBijective\<close>, with the invariant that broke, and
  \<open>InvalidPadding\<close> are the errors of the specification.
\<close>

text \<open>
  Modelled from the spec: the reason carried by \<open>NotBijective\<close>, which distinguishes a
  wrong length, a value out of range, and a duplicate (hence also missing) value.
\<close>

datatype reason = WrongLength | OutOfRange | DuplicateOrMissing

datatype error = TypeError | NotBijective reason | InvalidPadding

text \<open>
  Modelled from the spec: a \<open>PermutationTable\<close>, the validated forward table with the
  inverse derived from it.
\<close>

record permutation_table =
  table_forward :: "int list"
  table_inverse :: jsarray

text \<open>
  Modelled from the spec: \<open>construct\<close>, the validation of a raw table.  In the program it
  is done by the upload endpoint of the server (\<^verbatim>\<open>/upload-custom-sbox\<close>), which is not
  part of the client sources; the client only posts the file and shows the error of the
  response.  The specification validates in turn that the length is exactly 256, that
  every value is in \<open>[0,255]\<close>, and that every value occurs exactly once; on failure it
  reports the invariant that broke, on success it derives the inverse, which the client
  does with \<^verbatim>\<open>generateInverseSBox\<close>.
\<close>

definition construct :: "int list \<Rightarrow> error + permutation_table" where
  "construct rawTable =
     (if length rawTable \<noteq> 256 then Inl (NotBijective WrongLength)
      else if \<not> list_all (\<lambda>v. 0 \<le> v \<and> v \<le> 255) rawTable then Inl (NotBijective OutOfRange)
      else if \<not> distinct rawTable then Inl (NotBijective DuplicateOrMissing)
      else Inr \<lparr>table_forward = rawTable, table_inverse = generateInverseSBox rawTable\<rparr>)"

section \<open>The interactive demo cipher\<close>

text \<open>
  A JavaScript string is a sequence of UTF-16 code units; \<^verbatim>\<open>txt.split('')\<close> yields them
  one by one and \<^verbatim>\<open>charCodeAt(0)\<close> reads a value in \<open>0..65535\<close>.
\<close>

type_synonym code_unit = "16 word"

text \<open>
  \<^verbatim>\<open>String.fromCharCode(v)\<close> converts \<open>v\<close> to an unsigned 16-bit integer;
  \<^verbatim>\<open>undefined\<close> becomes the code unit 0.
\<close>

definition fromCharCode :: "nat option \<Rightarrow> code_unit" where
  "fromCharCode v = (case v of None \<Rightarrow> 0 | Some i \<Rightarrow> word_of_nat i)"

text \<open>
  \<^verbatim>\<open>doCrypto\<close> (the first version of \<^verbatim>\<open>main.js\<close> and the earlier script): an empty
  input shows the placeholders and nothing is encrypted.  Otherwise every code unit \<open>c\<close> is
  replaced by \<^verbatim>\<open>currentData.sbox[c % 256]\<close>, the values are shown in hexadecimal, and
  each value \<open>b\<close> is mapped back through \<^verbatim>\<open>String.fromCharCode(inverseSBox[b])\<close>.
  The hexadecimal rendering \<^verbatim>\<open>b.toString(16)\<close> is not modelled, except that it throws a
  \<^verbatim>\<open>TypeError\<close> when \<open>b\<close> is \<^verbatim>\<open>undefined\<close>, before anything is decrypted.
\<close>

datatype demo_output = Placeholder | Shown "jsval list" "code_unit list"

definition doCrypto :: "int list \<Rightarrow> jsarray \<Rightarrow> code_unit list \<Rightarrow> error + demo_output" where
  "doCrypto tab inv_tab txt =
     (if txt = [] then Inr Placeholder
      else let ciph = map (\<lambda>c. sbox_at tab (unat c mod 256)) txt in
        if Undefined \<in> set ciph then Inl TypeError
        else Inr (Shown ciph (map (\<lambda>b. fromCharCode (inv_tab b)) ciph)))"

section \<open>The padded substitution cipher of the specification\<close>

text \<open>
  The client posts the plaintext to \<^verbatim>\<open>/encrypt-text\<close> and the ciphertext to
  \<^verbatim>\<open>/decrypt-text\<close>; padding and substitution run on the server, which is not part of
  the client sources.  The definitions of this section follow the specification.  The
  table and its inverse are the arrays of the client.
\<close>

type_synonym byte = "8 word"

text \<open>
  Modelled from the spec: the fixed block size of the padding, which the server sets; it
  is 16 in scenario 1 of the specification.
\<close>

definition block_size :: nat where
  "block_size = 16"

text \<open>
  Modelled from the spec: \<open>forward(byte)\<close> of a validated table (the server's lookup),
  a total function on bytes that reads the table at the byte.  Outside a validated table
  the specification leaves it open; an absent entry is read as 0.
\<close>

definition forward :: "int list \<Rightarrow> byte \<Rightarrow> byte" where
  "forward tab b = (case sbox_at tab (unat b) of Undefined \<Rightarrow> 0 | Number v \<Rightarrow> word_of_int v)"

text \<open>
  Modelled from the spec: \<open>backward(byte)\<close> of a validated table (the server's lookup),
  a total function on bytes that reads the inverse array at the byte.  An absent entry is
  read as 0, as \<^verbatim>\<open>String.fromCharCode\<close> does in the demo.
\<close>

definition backward :: "jsarray \<Rightarrow> byte \<Rightarrow> byte" where
  "backward inv_tab b = (case inv_tab (Number (uint b)) of None \<Rightarrow> 0 | Some i \<Rightarrow> word_of_nat i)"

text \<open>
  Modelled from the spec: the padding of the server's \<open>encode\<close>.  The plaintext is
  padded to the next multiple of the block size with bytes whose value is the pad length;
  a length that is already a multiple gets a full block.
\<close>

definition pad_length :: "nat \<Rightarrow> nat" where
  "pad_length n = block_size - n mod block_size"

text \<open>Modelled from the spec: the padded plaintext of the server's \<open>encode\<close>.\<close>

definition add_padding :: "byte list \<Rightarrow> byte list" where
  "add_padding p = p @ replicate (pad_length (length p)) (word_of_nat (pad_length (length p)))"

text \<open>
  Modelled from the spec: the padding removal of the server's \<open>decode\<close> when no
  original length is supplied.  It fails with \<open>InvalidPadding\<close> if the last byte is 0,
  exceeds the block size, or the trailing bytes are not all equal to the claimed pad
  length (also when there is no last byte or fewer bytes than the pad length).
\<close>

definition remove_padding :: "byte list \<Rightarrow> error + byte list" where
  "remove_padding q =
     (if q = [] then Inl InvalidPadding
      else let k = unat (last q) in
        if k = 0 \<or> block_size < k \<or> length q < k
           \<or> drop (length q - k) q \<noteq> replicate k (last q)
        then Inl InvalidPadding
        else Inr (take (length q - k) q))"

text \<open>
  Modelled from the spec: \<open>encode\<close> of the server.  It pads the plaintext, applies
  \<open>forward\<close> to every byte, and returns the ciphertext with the length before padding.
\<close>

definition encode :: "byte list \<Rightarrow> int list \<Rightarrow> byte list \<times> nat" where
  "encode p tab = (map (forward tab) (add_padding p), length p)"

text \<open>
  Modelled from the spec: \<open>decode\<close> of the server.  It applies \<open>backward\<close> to every
  byte, then truncates to the original length when one is supplied and removes the
  padding named by the last byte otherwise.
\<close>

definition decode :: "byte list \<Rightarrow> jsarray \<Rightarrow> nat option \<Rightarrow> error + byte list" where
  "decode cipherBytes inv_tab originalLength =
     (let q = map (backward inv_tab) cipherBytes in
      case originalLength of
        Some n \<Rightarrow> Inr (take n q)
      | None \<Rightarrow> remove_padding q)"

section \<open>Comparing an uploaded table with an existing one\<close>

text \<open>
  The metric values are JavaScript numbers.  \<open>NaN\<close> stands for a value that is not a
  number (every comparison with it is false); \<open>Num v\<close> is a number.  The comparisons
  \<^verbatim>\<open><\<close> and \<^verbatim>\<open>>\<close> of numbers are those of a linear order.  The functions of this section
  take the carrier \<open>'a\<close> of the numbers and the two computations that round their result,
  \<open>dev v\<close> for \<^verbatim>\<open>Math.abs(v - 0.5)\<close> and \<open>r4 v\<close> for \<^verbatim>\<open>parseFloat(v.toFixed(4))\<close>, as
  parameters.  The program runs them on the doubles, with the functions \<open>double_dev\<close> and
  \<open>double_r4\<close> defined in the next section.
\<close>

datatype 'a jsnum = NaN | Num 'a

fun js_lt :: "'a::linorder jsnum \<Rightarrow> 'a jsnum \<Rightarrow> bool" where
  "js_lt (Num a) (Num b) = (a < b)"
| "js_lt _ _ = False"

definition js_gt :: "'a::linorder jsnum \<Rightarrow> 'a jsnum \<Rightarrow> bool" where
  "js_gt x y = js_lt y x"

definition abs_minus_half :: "('a \<Rightarrow> 'a) \<Rightarrow> 'a jsnum \<Rightarrow> 'a jsnum" where
  "abs_minus_half dev x = (case x of NaN \<Rightarrow> NaN | Num v \<Rightarrow> Num (dev v))"

definition toFixed_4 :: "('a \<Rightarrow> 'a) \<Rightarrow> 'a jsnum \<Rightarrow> 'a jsnum" where
  "toFixed_4 r4 x = (case x of NaN \<Rightarrow> NaN | Num v \<Rightarrow> Num (r4 v))"

text \<open>\<^verbatim>\<open>x || 0\<close>: a value that is not a number (or is 0) is replaced by 0.\<close>

definition or_zero :: "'a::zero jsnum \<Rightarrow> 'a jsnum" where
  "or_zero x = (case x of NaN \<Rightarrow> Num 0 | Num v \<Rightarrow> Num v)"

text \<open>
  The two computations in exact arithmetic, without the rounding of the result to a
  double.  On the two example payloads below they yield the verdicts that the doubles
  yield.
\<close>

definition exact_dev :: "real \<Rightarrow> real" where
  "exact_dev v = \<bar>v - 1 / 2\<bar>"

definition exact_r4 :: "real \<Rightarrow> real" where
  "exact_r4 v = of_int \<lfloor>v * 10000 + 1 / 2\<rfloor> / 10000"

subsection \<open>One row of the comparison\<close>

text \<open>
  \<^verbatim>\<open>renderComparisonRow\<close> receives the two values already parsed
  (\<^verbatim>\<open>customNum\<close>, \<^verbatim>\<open>existingNum\<close>) and the direction \<^verbatim>\<open>compareType\<close>, and sets the two
  flags \<^verbatim>\<open>customBetter\<close> and \<^verbatim>\<open>existingBetter\<close>, which the model returns.  The row marks
  the custom value as the winner when \<^verbatim>\<open>customBetter\<close> is set, the existing value when
  \<^verbatim>\<open>existingBetter\<close> is set, and neither otherwise: that is the verdict.
\<close>

datatype verdict = ABetter | BBetter | Tie

definition renderComparisonRow ::
  "('a::linorder \<Rightarrow> 'a) \<Rightarrow> string \<Rightarrow> 'a jsnum \<Rightarrow> 'a jsnum \<Rightarrow> bool \<times> bool" where
  "renderComparisonRow dev compareType customNum existingNum =
     (if compareType = ''higher'' then
        (if js_gt customNum existingNum then (True, False)
         else if js_gt existingNum customNum then (False, True)
         else (False, False))
      else if compareType = ''lower'' then
        (if js_lt customNum existingNum then (True, False)
         else if js_lt existingNum customNum then (False, True)
         else (False, False))
      else if compareType = ''closer_to_0.5'' then
        (let customDiff = abs_minus_half dev customNum;
             existingDiff = abs_minus_half dev existingNum
         in if js_lt customDiff existingDiff then (True, False)
            else if js_lt existingDiff customDiff then (False, True)
            else (False, False))
      else (False, False))"

definition verdict_of :: "bool \<times> bool \<Rightarrow> verdict" where
  "verdict_of flags = (if fst flags then ABetter else if snd flags then BBetter else Tie)"

subsection \<open>The rows and the summary\<close>

text \<open>
  The metrics of the uploaded table come from the upload response, those of the existing
  table from the catalogue.
\<close>

record 'a custom_metrics =
  nonlinearity :: "'a jsnum"
  sac :: "'a jsnum"
  bic :: "'a jsnum"
  lap :: "'a jsnum"
  dap :: "'a jsnum"
  fixed_points :: "'a jsnum"

record 'a existing_metrics =
  NL :: "'a jsnum"
  SAC :: "'a jsnum"
  BIC_NL :: "'a jsnum"
  BIC_SAC :: "'a jsnum"
  LAP :: "'a jsnum"
  DAP :: "'a jsnum"
  DU :: "'a jsnum"
  AD :: "'a jsnum"
  TO :: "'a jsnum"
  CI :: "'a jsnum"

text \<open>
  The click handler of \<^verbatim>\<open>compareSboxBtn\<close> renders six rows.  A value passed as a number
  is parsed back to itself; a value passed through \<^verbatim>\<open>toFixed(4)\<close> is parsed from its four
  decimals.
\<close>

definition comparisonRows ::
  "('a \<Rightarrow> 'a) \<Rightarrow> ('a::{linorder,zero} \<Rightarrow> 'a) \<Rightarrow> 'a custom_metrics \<Rightarrow> 'a existing_metrics
   \<Rightarrow> (string \<times> verdict) list" where
  "comparisonRows r4 dev customMetrics existingMetrics =
     [(''Nonlinearity'', verdict_of (renderComparisonRow dev ''higher''
          (nonlinearity customMetrics) (NL existingMetrics))),
      (''SAC'', verdict_of (renderComparisonRow dev ''closer_to_0.5''
          (toFixed_4 r4 (sac customMetrics)) (toFixed_4 r4 (SAC existingMetrics)))),
      (''BIC'', verdict_of (renderComparisonRow dev ''closer_to_0.5''
          (toFixed_4 r4 (bic customMetrics)) (toFixed_4 r4 (BIC_SAC existingMetrics)))),
      (''LAP'', verdict_of (renderComparisonRow dev ''lower''
          (toFixed_4 r4 (lap customMetrics)) (toFixed_4 r4 (LAP existingMetrics)))),
      (''DAP'', verdict_of (renderComparisonRow dev ''lower''
          (toFixed_4 r4 (dap customMetrics)) (toFixed_4 r4 (DAP existingMetrics)))),
      (''Fixed Points'', verdict_of (renderComparisonRow dev ''lower''
          (fixed_points customMetrics) (or_zero (TO existingMetrics))))]"

text \<open>
  \<^verbatim>\<open>generateComparisonSummary\<close> counts the wins of both sides over five comparisons of the
  unrounded values and names the side with more wins.  Each
  \<^verbatim>\<open>if (..) customWins++ else if (..) existingWins++\<close> is one \<open>count_win\<close>.  The result
  is the pair of counters (\<open>winsA\<close> is \<^verbatim>\<open>customWins\<close>, \<open>winsB\<close> is \<^verbatim>\<open>existingWins\<close>)
  and the headline (\<open>overall\<close>); the explanatory list is not modelled.
\<close>

record outcome =
  winsA :: nat
  winsB :: nat
  overall :: verdict

definition count_win :: "bool \<Rightarrow> bool \<Rightarrow> nat \<times> nat \<Rightarrow> nat \<times> nat" where
  "count_win customBetter existingBetter wins =
     (if customBetter then (fst wins + 1, snd wins)
      else if existingBetter then (fst wins, snd wins + 1)
      else wins)"

definition generateComparisonSummary ::
  "('a::{linorder,zero} \<Rightarrow> 'a) \<Rightarrow> 'a custom_metrics \<Rightarrow> 'a existing_metrics \<Rightarrow> outcome" where
  "generateComparisonSummary dev customMetrics existingMetrics =
     (let w1 = count_win (js_gt (nonlinearity customMetrics) (NL existingMetrics))
                         (js_gt (NL existingMetrics) (nonlinearity customMetrics)) (0, 0);
          customSacDiff = abs_minus_half dev (sac customMetrics);
          existingSacDiff = abs_minus_half dev (SAC existingMetrics);
          w2 = count_win (js_lt customSacDiff existingSacDiff)
                         (js_lt existingSacDiff customSacDiff) w1;
          w3 = count_win (js_lt (lap customMetrics) (LAP existingMetrics))
                         (js_lt (LAP existingMetrics) (lap customMetrics)) w2;
          w4 = count_win (js_lt (dap customMetrics) (DAP existingMetrics))
                         (js_lt (DAP existingMetrics) (dap customMetrics)) w3;
          existingFP = or_zero (TO existingMetrics);
          w5 = count_win (js_lt (fixed_points customMetrics) existingFP)
                         (js_lt existingFP (fixed_points customMetrics)) w4;
          customWins = fst w5;
          existingWins = snd w5
      in \<lparr>winsA = customWins, winsB = existingWins,
          overall = (if customWins > existingWins then ABetter
                     else if existingWins > customWins then BBetter
                     else Tie)\<rparr>)"

subsection \<open>The comparator as the specification words it\<close>

text \<open>
  The aggregate of the specification: the wins of each side are the numbers of its
  non-tie verdicts, and the overall verdict goes to the side with strictly more wins.
\<close>

definition aggregate_spec :: "verdict list \<Rightarrow> outcome" where
  "aggregate_spec verdicts =
     \<lparr>winsA = count_list verdicts ABetter, winsB = count_list verdicts BBetter,
      overall = (if count_list verdicts ABetter > count_list verdicts BBetter then ABetter
                 else if count_list verdicts BBetter > count_list verdicts ABetter then BBetter
                 else Tie)\<rparr>"


definition greater_wins :: "'a::linorder \<Rightarrow> 'a \<Rightarrow> verdict" where
  "greater_wins a b = (if a > b then ABetter else if b > a then BBetter else Tie)"


text \<open>The five comparisons of the summary, as verdicts.\<close>

definition summary_verdicts ::
  "('a::{linorder,zero} \<Rightarrow> 'a) \<Rightarrow> 'a custom_metrics \<Rightarrow> 'a existing_metrics \<Rightarrow> verdict list" where
  "summary_verdicts dev customMetrics existingMetrics =
     [verdict_of (renderComparisonRow dev ''higher''
        (nonlinearity customMetrics) (NL existingMetrics)),
      verdict_of (renderComparisonRow dev ''closer_to_0.5''
        (sac customMetrics) (SAC existingMetrics)),
      verdict_of (renderComparisonRow dev ''lower'' (lap customMetrics) (LAP existingMetrics)),
      verdict_of (renderComparisonRow dev ''lower'' (dap customMetrics) (DAP existingMetrics)),
      verdict_of (renderComparisonRow dev ''lower''
        (fixed_points customMetrics) (or_zero (TO existingMetrics)))]"

text \<open>
  Swapping the two sides: the uploaded table takes the values the existing one had for the
  compared metrics, and the other way round.
\<close>

definition swap_verdict :: "verdict \<Rightarrow> verdict" where
  "swap_verdict v = (case v of ABetter \<Rightarrow> BBetter | BBetter \<Rightarrow> ABetter | Tie \<Rightarrow> Tie)"

definition swap_outcome :: "outcome \<Rightarrow> outcome" where
  "swap_outcome r = \<lparr>winsA = winsB r, winsB = winsA r, overall = swap_verdict (overall r)\<rparr>"

definition swapped_custom :: "'a existing_metrics \<Rightarrow> 'a custom_metrics" where
  "swapped_custom existingMetrics =
     \<lparr>nonlinearity = NL existingMetrics, sac = SAC existingMetrics,
      bic = BIC_SAC existingMetrics, lap = LAP existingMetrics, dap = DAP existingMetrics,
      fixed_points = TO existingMetrics\<rparr>"

definition swapped_existing :: "'a custom_metrics \<Rightarrow> 'a existing_metrics \<Rightarrow> 'a existing_metrics" where
  "swapped_existing customMetrics existingMetrics =
     existingMetrics\<lparr>NL := nonlinearity customMetrics, SAC := sac customMetrics,
       BIC_SAC := bic customMetrics, LAP := lap customMetrics, DAP := dap customMetrics,
       TO := fixed_points customMetrics\<rparr>"

text \<open>Two concrete payloads that differ only in the BIC value.\<close>

definition custom_example :: "real custom_metrics" where
  "custom_example =
     \<lparr>nonlinearity = Num 112, sac = Num (1 / 2), bic = Num (1 / 2), lap = Num (1 / 16),
      dap = Num (1 / 64), fixed_points = Num 0\<rparr>"

definition existing_example :: "real existing_metrics" where
  "existing_example =
     \<lparr>NL = Num 112, SAC = Num (1 / 2), BIC_NL = Num 112, BIC_SAC = Num (1 / 4),
      LAP = Num (1 / 16), DAP = Num (1 / 64), DU = Num 4, AD = Num 7, TO = Num 0,
      CI = Num 0\<rparr>"

section \<open>The numbers of the comparison\<close>

text \<open>
  A JavaScript number is an IEEE 754 double: zero, or \<open>m * 2^e\<close> with an integer \<open>m\<close> of
  at most 53 bits and \<open>- 1074 \<le> e\<close>.  A double is modelled by the real number it denotes
  (the comparisons \<^verbatim>\<open><\<close> and \<^verbatim>\<open>>\<close> of doubles are those of the reals); the result of an
  arithmetic operation is the exact result rounded to the nearest double, to the one with
  the even significand when two are equally near.  The metric values are far below the
  largest double, so the overflow to an infinity is not modelled.
\<close>

text \<open>The integer part of the binary logarithm of a positive integer.\<close>

fun ilog2 :: "nat \<Rightarrow> nat" where
  "ilog2 n = (if n < 2 then 0 else Suc (ilog2 (n div 2)))"

text \<open>The exponent \<open>k\<close> of the binade of \<open>x \<noteq> 0\<close>: \<open>2^k \<le> |x| < 2^(k+1)\<close>.\<close>

definition binade :: "real \<Rightarrow> int" where
  "binade x =
     (if 1 \<le> \<bar>x\<bar> then int (ilog2 (nat \<lfloor>\<bar>x\<bar>\<rfloor>))
      else - int (ilog2 (nat (\<lceil>1 / \<bar>x\<bar>\<rceil> - 1))) - 1)"

text \<open>Rounding to the nearest integer, to the even one of two that are equally near.\<close>

definition round_half_even :: "real \<Rightarrow> int" where
  "round_half_even y =
     (if y - of_int \<lfloor>y\<rfloor> < 1 / 2 then \<lfloor>y\<rfloor>
      else if 1 / 2 < y - of_int \<lfloor>y\<rfloor> then \<lfloor>y\<rfloor> + 1
      else if even \<lfloor>y\<rfloor> then \<lfloor>y\<rfloor> else \<lfloor>y\<rfloor> + 1)"

text \<open>
  The doubles of the binade of \<open>x\<close> are the multiples of \<open>2^(k - 52)\<close>, and the multiples of
  \<open>2^(- 1074)\<close> in the subnormal range.
\<close>

definition ulp_exponent :: "real \<Rightarrow> int" where
  "ulp_exponent x = max (binade x - 52) (- 1074)"

definition to_double :: "real \<Rightarrow> real" where
  "to_double x =
     (if x = 0 then 0
      else of_int (round_half_even (x / 2 powi ulp_exponent x)) * 2 powi ulp_exponent x)"


text \<open>\<^verbatim>\<open>Math.abs(v - 0.5)\<close>: the difference is rounded, its absolute value is exact.\<close>

definition double_dev :: "real \<Rightarrow> real" where
  "double_dev v = \<bar>to_double (v - 1 / 2)\<bar>"

text \<open>
  \<^verbatim>\<open>parseFloat(v.toFixed(4))\<close>.  \<^verbatim>\<open>toFixed(4)\<close> prints, after the sign, the integer \<open>n\<close>
  for which \<open>n / 10^4\<close> is nearest to \<open>|v|\<close> (the larger one of two that are equally near)
  with four decimals, and the digits of the number itself from \<open>10^21\<close>; \<^verbatim>\<open>parseFloat\<close>
  reads the decimal back as the nearest double.
\<close>

definition double_r4 :: "real \<Rightarrow> real" where
  "double_r4 v =
     (if 10 ^ 21 \<le> \<bar>v\<bar> then v
      else sgn v * to_double (of_int \<lfloor>\<bar>v\<bar> * 10000 + 1 / 2\<rfloor> / 10000))"

text \<open>
  The decimal with four places nearest to a value from 0 (the larger one of two that are
  equally near).
\<close>

definition nearest_4_decimals :: "real \<Rightarrow> real" where
  "nearest_4_decimals v = of_int \<lfloor>v * 10000 + 1 / 2\<rfloor> / 10000"

text \<open>
  The doubles written \<^verbatim>\<open>0.49\<close>, \<^verbatim>\<open>0.52\<close>, \<^verbatim>\<open>0.51\<close>, \<^verbatim>\<open>0.3\<close>, \<^verbatim>\<open>0.7\<close>, \<^verbatim>\<open>0.1\<close> and
  \<^verbatim>\<open>0.9\<close>.
\<close>

definition d_0_49 :: real where
  "d_0_49 = 2206763817411543 / 2 ^ 52"

definition d_0_52 :: real where
  "d_0_52 = 1170935903116329 / 2 ^ 51"

definition d_0_51 :: real where
  "d_0_51 = 2296835809958953 / 2 ^ 52"

definition d_0_3 :: real where
  "d_0_3 = 5404319552844595 / 2 ^ 54"

definition d_0_7 :: real where
  "d_0_7 = 3152519739159347 / 2 ^ 52"

definition d_0_1 :: real where
  "d_0_1 = 3602879701896397 / 2 ^ 55"

definition d_0_9 :: real where
  "d_0_9 = 8106479329266893 / 2 ^ 53"

section \<open>The ciphertext file\<close>

text \<open>
  The download handler and the parser of \<^verbatim>\<open>decryptTextEnhanced\<close> work on text.  The text
  is modelled as a \<open>string\<close>, whose characters are the code units below 256; the file
  content consists of ASCII characters.

  The numbers read and written here are integers.  A JavaScript number is a double: every
  integer \<open>n\<close> with \<open>-2^53 \<le> n < 2^53\<close> is a number, a template literal prints it as its
  decimal digits, and \<^verbatim>\<open>parseInt\<close> returns it exactly.  These integers are modelled by the
  54-bit words, read as signed integers (\<open>sint\<close>).  Outside this range \<^verbatim>\<open>parseInt\<close> rounds
  to a double (or to an infinity) and a template literal prints the shortest digits that
  identify the double; such a number is \<open>Large_integer\<close>, a truthy number whose value the
  model does not track.  \<open>NaN_integer\<close> is \<^verbatim>\<open>NaN\<close>.
\<close>

datatype js_integer = NaN_integer | Integer "54 word" | Large_integer

definition to_js_integer :: "int \<Rightarrow> js_integer" where
  "to_js_integer v = (if - (2 ^ 53) \<le> v \<and> v < 2 ^ 53 then Integer (word_of_int v) else Large_integer)"

subsection \<open>Writing the file\<close>

text \<open>
  A template literal prints an integer of the range above in decimal digits, with a minus
  sign when it is negative.
\<close>

definition digit_char :: "nat \<Rightarrow> char" where
  "digit_char d = ''0123456789'' ! d"

fun dec_digits :: "nat \<Rightarrow> string" where
  "dec_digits n = (if n < 10 then [digit_char n] else dec_digits (n div 10) @ [digit_char (n mod 10)])"

definition number_to_string :: "54 word \<Rightarrow> string" where
  "number_to_string n =
     (if sint n < 0 then CHR ''-'' # dec_digits (nat (- sint n)) else dec_digits (nat (sint n)))"

text \<open>
  The click handler of \<^verbatim>\<open>downloadCipherBtn\<close>.  \<^verbatim>\<open>window.lastCipherHex\<close> is a string or
  absent; \<^verbatim>\<open>window.lastOriginalLength\<close> is the \<^verbatim>\<open>original_length\<close> of the encryption
  response, a byte count (an integer of the range above), or absent.  Nothing is written
  without a stored hex string; the header line is written when the stored length is
  truthy, that is a number other than 0.  The result is the content of the file.
\<close>

definition downloadFileContent :: "string option \<Rightarrow> 54 word option \<Rightarrow> string option" where
  "downloadFileContent lastCipherHex lastOriginalLength =
     (case lastCipherHex of
        None \<Rightarrow> None
      | Some hexToDownload \<Rightarrow>
          if hexToDownload = [] then None
          else Some (case lastOriginalLength of
                       Some n \<Rightarrow>
                         if n \<noteq> 0
                         then ''LENGTH:'' @ number_to_string n @ [CHR 0x0A] @ ''HEX:'' @ hexToDownload
                         else hexToDownload
                     | None \<Rightarrow> hexToDownload))"

subsection \<open>Reading the file\<close>

text \<open>White space of \<^verbatim>\<open>trim\<close>, of \<^verbatim>\<open>parseInt\<close> and of the class \<^verbatim>\<open>\s\<close>, below 256.\<close>

definition is_space :: "char \<Rightarrow> bool" where
  "is_space c \<longleftrightarrow> c \<in> {CHR 0x09, CHR 0x0A, CHR 0x0B, CHR 0x0C, CHR 0x0D, CHR 0x20, CHR 0xA0}"

definition trim :: "string \<Rightarrow> string" where
  "trim s = rev (dropWhile is_space (rev (dropWhile is_space s)))"

text \<open>\<^verbatim>\<open>s.split('\n')\<close>: the pieces between the line feeds; at least one piece.\<close>

fun split_newline :: "string \<Rightarrow> string list" where
  "split_newline [] = [[]]"
| "split_newline (c # cs) =
     (if c = CHR 0x0A then [] # split_newline cs
      else (case split_newline cs of [] \<Rightarrow> [[c]] | l # ls \<Rightarrow> (c # l) # ls))"

text \<open>\<^verbatim>\<open>s.replace(pat, '')\<close> with a string pattern removes its first occurrence.\<close>

fun remove_first :: "string \<Rightarrow> string \<Rightarrow> string" where
  "remove_first pat [] = []"
| "remove_first pat (c # cs) =
     (if prefix pat (c # cs) then drop (length pat) (c # cs) else c # remove_first pat cs)"

text \<open>
  \<^verbatim>\<open>parseInt(s, R)\<close>, where \<open>R = 0\<close> stands for a call without a radix.  Leading white
  space is skipped and an optional sign is read; a radix other than 0 must be between 2
  and 36; without a radix, or with the radix 16, a prefix \<^verbatim>\<open>0x\<close> is skipped and selects
  the radix 16, and without a radix and without the prefix the radix is 10.  The value is
  that of the longest run of digits of the radix; an empty run gives \<^verbatim>\<open>NaN\<close>.
\<close>

definition digit_value :: "char \<Rightarrow> nat option" where
  "digit_value c =
     map_of [(CHR ''0'', 0), (CHR ''1'', 1), (CHR ''2'', 2), (CHR ''3'', 3), (CHR ''4'', 4),
             (CHR ''5'', 5), (CHR ''6'', 6), (CHR ''7'', 7), (CHR ''8'', 8), (CHR ''9'', 9),
             (CHR ''a'', 10), (CHR ''b'', 11), (CHR ''c'', 12), (CHR ''d'', 13),
             (CHR ''e'', 14), (CHR ''f'', 15), (CHR ''g'', 16), (CHR ''h'', 17),
             (CHR ''i'', 18), (CHR ''j'', 19), (CHR ''k'', 20), (CHR ''l'', 21),
             (CHR ''m'', 22), (CHR ''n'', 23), (CHR ''o'', 24), (CHR ''p'', 25),
             (CHR ''q'', 26), (CHR ''r'', 27), (CHR ''s'', 28), (CHR ''t'', 29),
             (CHR ''u'', 30), (CHR ''v'', 31), (CHR ''w'', 32), (CHR ''x'', 33),
             (CHR ''y'', 34), (CHR ''z'', 35),
             (CHR ''A'', 10), (CHR ''B'', 11), (CHR ''C'', 12), (CHR ''D'', 13),
             (CHR ''E'', 14), (CHR ''F'', 15), (CHR ''G'', 16), (CHR ''H'', 17),
             (CHR ''I'', 18), (CHR ''J'', 19), (CHR ''K'', 20), (CHR ''L'', 21),
             (CHR ''M'', 22), (CHR ''N'', 23), (CHR ''O'', 24), (CHR ''P'', 25),
             (CHR ''Q'', 26), (CHR ''R'', 27), (CHR ''S'', 28), (CHR ''T'', 29),
             (CHR ''U'', 30), (CHR ''V'', 31), (CHR ''W'', 32), (CHR ''X'', 33),
             (CHR ''Y'', 34), (CHR ''Z'', 35)] c"

definition digit_of :: "nat \<Rightarrow> char \<Rightarrow> nat option" where
  "digit_of radix c =
     (case digit_value c of
        None \<Rightarrow> None
      | Some d \<Rightarrow> if d < radix then Some d else None)"

fun leading_digits :: "nat \<Rightarrow> string \<Rightarrow> nat list" where
  "leading_digits radix [] = []"
| "leading_digits radix (c # cs) =
     (case digit_of radix c of None \<Rightarrow> [] | Some d \<Rightarrow> d # leading_digits radix cs)"

definition digits_value :: "nat \<Rightarrow> nat list \<Rightarrow> nat" where
  "digits_value radix ds = foldl (\<lambda>acc d. acc * radix + d) 0 ds"

definition parseInt :: "string \<Rightarrow> nat \<Rightarrow> js_integer" where
  "parseInt s R =
     (let s1 = dropWhile is_space s;
          negative = prefix ''-'' s1;
          s2 = (if prefix ''-'' s1 \<or> prefix ''+'' s1 then drop 1 s1 else s1);
          hex = ((R = 0 \<or> R = 16) \<and> (prefix ''0x'' s2 \<or> prefix ''0X'' s2));
          radix = (if R = 0 then (if hex then 16 else 10) else R);
          ds = leading_digits radix (if hex then drop 2 s2 else s2)
      in if R \<noteq> 0 \<and> (R < 2 \<or> 36 < R) then NaN_integer
         else if ds = [] then NaN_integer
         else to_js_integer ((if negative then - 1 else 1) * int (digits_value radix ds)))"

text \<open>
  \<^verbatim>\<open>toUpperCase\<close> on the letters \<open>a\<close> to \<open>z\<close>.  A character above 127 is never a hex
  digit, neither before nor after conversion, so it only ever leads to the rejection of
  the input and is left as it is.
\<close>

definition to_upper :: "char \<Rightarrow> char" where
  "to_upper c =
     (case map_of (zip ''abcdefghijklmnopqrstuvwxyz'' ''ABCDEFGHIJKLMNOPQRSTUVWXYZ'') c of
        None \<Rightarrow> c
      | Some u \<Rightarrow> u)"

definition is_upper_hex :: "char \<Rightarrow> bool" where
  "is_upper_hex c \<longleftrightarrow> c \<in> set ''0123456789ABCDEF''"

text \<open>
  The loop \<^verbatim>\<open>for (i = 0; i < cipherHex.length; i += 2)\<close> reads
  \<^verbatim>\<open>cipherHex.substring(i, i + 2)\<close>: the string in pieces of two characters (the last
  piece has one character when the length is odd).
\<close>

fun hex_pairs :: "string \<Rightarrow> string list" where
  "hex_pairs (a # b # cs) = [a, b] # hex_pairs cs"
| "hex_pairs [a] = [[a]]"
| "hex_pairs [] = []"

text \<open>
  The parser of \<^verbatim>\<open>decryptTextEnhanced\<close>, from the value of the input field and of the
  hidden length field to the ciphertext it will send: the trimmed input must not be
  empty; with a \<^verbatim>\<open>LENGTH:\<close> header every line is read in turn; the payload, without
  white space and in upper case, must be a string of at least 32 hex digits of even
  length, and is converted to bytes, two digits at a time.  \<^verbatim>\<open>originalLength\<close> is
  \<^verbatim>\<open>null\<close> (\<open>None\<close>) or a number.  (The check of the key and the request follow.)
\<close>

datatype decrypt_alert = Enter_ciphertext | Invalid_ciphertext

record parsed_cipher =
  originalLength :: "js_integer option"
  cipherHex :: string
  cipherBytes :: "js_integer list"

definition read_line :: "js_integer option \<times> string \<Rightarrow> string \<Rightarrow> js_integer option \<times> string" where
  "read_line st line =
     (if prefix ''LENGTH:'' line
      then (Some (parseInt (trim (remove_first ''LENGTH:'' line)) 0), snd st)
      else if prefix ''HEX:'' line
      then (fst st, trim (remove_first ''HEX:'' line))
      else st)"

definition decryptTextEnhanced_parse :: "string \<Rightarrow> string \<Rightarrow> decrypt_alert + parsed_cipher" where
  "decryptTextEnhanced_parse fieldValue originalLengthData =
     (let inputText = trim fieldValue;
          hiddenLength = (case parseInt originalLengthData 0 of
                            NaN_integer \<Rightarrow> None
                          | Integer n \<Rightarrow> if n = 0 then None else Some (Integer n)
                          | Large_integer \<Rightarrow> Some Large_integer)
      in if inputText = [] then Inl Enter_ciphertext
         else
           let st = (if prefix ''LENGTH:'' inputText
                     then foldl read_line (hiddenLength, inputText) (split_newline inputText)
                     else (hiddenLength, inputText));
               cleanedInput = map to_upper (filter (\<lambda>c. \<not> is_space c) (snd st))
           in if cleanedInput \<noteq> [] \<and> list_all is_upper_hex cleanedInput
                 \<and> even (length cleanedInput) \<and> 32 \<le> length cleanedInput
              then Inr \<lparr>originalLength = fst st, cipherHex = cleanedInput,
                        cipherBytes = map (\<lambda>pair. parseInt pair 16) (hex_pairs cleanedInput)\<rparr>
              else Inl Invalid_ciphertext)"

text \<open>
  A cipher hex string: the hex digits, in either case, of whole 16-byte blocks, hence an
  even number of digits and at least 32 of them.  The bytes it denotes are the values of
  its pairs of digits.
\<close>

definition is_hex_digit :: "char \<Rightarrow> bool" where
  "is_hex_digit c \<longleftrightarrow> c \<in> set ''0123456789abcdefABCDEF''"

definition is_cipher_hex :: "string \<Rightarrow> bool" where
  "is_cipher_hex h \<longleftrightarrow> list_all is_hex_digit h \<and> even (length h) \<and> 32 \<le> length h"

definition hex_value :: "char \<Rightarrow> nat" where
  "hex_value c = (case digit_value c of None \<Rightarrow> 0 | Some d \<Rightarrow> d)"

fun hex_bytes :: "string \<Rightarrow> nat list" where
  "hex_bytes (a # b # cs) = (16 * hex_value a + hex_value b) # hex_bytes cs"
| "hex_bytes [a] = []"
| "hex_bytes [] = []"

section \<open>Properties of the tables\<close>

subsection \<open>The loop that fills the inverse\<close>

lemma inverse_loop_Suc:
  "inverse_loop tab (Suc n) inv0 = (inverse_loop tab n inv0)(sbox_at tab n \<mapsto> n)"
  by (simp add: inverse_loop_def)

lemma inverse_loop_untouched:
  "(\<forall>j<n. sbox_at tab j \<noteq> k) \<Longrightarrow> inverse_loop tab n inv0 k = inv0 k"
proof (induction n)
  case 0
  show ?case by (simp add: inverse_loop_def)
next
  case (Suc n)
  then show ?case by (auto simp: inverse_loop_Suc)
qed

text \<open>
  The entry read back at the key of index \<open>i\<close> is \<open>i\<close> exactly when no later index of the
  loop carries the same key: a later write overwrites an earlier one.
\<close>

lemma inverse_loop_last_write:
  "i < n \<Longrightarrow>
   (inverse_loop tab n inv0 (sbox_at tab i) = Some i) =
   (\<forall>j. i < j \<and> j < n \<longrightarrow> sbox_at tab j \<noteq> sbox_at tab i)"
proof (induction n)
  case 0
  then show ?case by simp
next
  case (Suc n)
  show ?case
  proof (cases "i = n")
    case True
    then show ?thesis by (auto simp: inverse_loop_Suc)
  next
    case False
    with Suc.prems have lt: "i < n" by simp
    show ?thesis
    proof (cases "sbox_at tab n = sbox_at tab i")
      case True
      with lt show ?thesis by (auto simp: inverse_loop_Suc)
    next
      case False
      with lt Suc.IH show ?thesis
        by (auto simp: inverse_loop_Suc less_Suc_eq)
    qed
  qed
qed

lemma sbox_at_distinct:
  "distinct tab \<Longrightarrow> i < length tab \<Longrightarrow> j < length tab \<Longrightarrow>
   (sbox_at tab j = sbox_at tab i) = (j = i)"
  by (auto simp: sbox_at_def nth_eq_iff_index_eq)

lemma inverse_loop_left:
  assumes "distinct tab" and "n \<le> length tab" and "i < n"
  shows "inverse_loop tab n inv0 (Number (tab ! i)) = Some i"
proof -
  have key: "sbox_at tab i = Number (tab ! i)"
    using assms by (simp add: sbox_at_def)
  have "\<forall>j. i < j \<and> j < n \<longrightarrow> sbox_at tab j \<noteq> sbox_at tab i"
    using assms by (auto simp: sbox_at_distinct)
  with assms(3) have "inverse_loop tab n inv0 (sbox_at tab i) = Some i"
    by (simp add: inverse_loop_last_write)
  with key show ?thesis by simp
qed

subsection \<open>Tables accepted as bijections\<close>

text \<open>A table accepted as a bijection takes every value of \<open>0..255\<close> (pigeonhole).\<close>

lemma is_bijection_set:
  assumes "is_bijection tab"
  shows "set tab = {0..255}"
proof -
  have sub: "set tab \<subseteq> {0..255}"
    using assms by (auto simp: is_bijection_def)
  have "card (set tab) = 256"
    using assms by (simp add: is_bijection_def distinct_card)
  moreover have "card {0..255::int} = 256" by simp
  ultimately show ?thesis
    using sub by (intro card_subset_eq) simp_all
qed

lemma is_bijection_onto:
  assumes "is_bijection tab" and "i < 256"
  shows "\<exists>j<256. tab ! j = int i"
proof -
  have "int i \<in> set tab"
    using assms by (simp add: is_bijection_set)
  then obtain j where "j < length tab" and "tab ! j = int i"
    by (auto simp: in_set_conv_nth)
  with assms(1) show ?thesis by (auto simp: is_bijection_def)
qed

lemma is_bijection_sbox_at:
  assumes "is_bijection tab" and "i < 256"
  shows "sbox_at tab i = Number (tab ! i)" and "0 \<le> tab ! i" and "tab ! i \<le> 255"
  using assms by (auto simp: is_bijection_def sbox_at_def)

lemma generateInverseSBox_at:
  assumes "is_bijection tab" and "i < 256"
  shows "generateInverseSBox tab (Number (tab ! i)) = Some i"
  unfolding generateInverseSBox_def
  using assms by (intro inverse_loop_left) (simp_all add: is_bijection_def)

lemma is_bijection_identity_table: "is_bijection identity_table"
  by (auto simp: is_bijection_def identity_table_def distinct_map inj_on_def)

lemma sbox_at_identity_table:
  "i < 256 \<Longrightarrow> sbox_at identity_table i = Number (int i)"
  by (simp add: sbox_at_def identity_table_def)

text \<open>
  C2.  Inverse-table law.  For every forward table accepted as a bijection on \<open>{0..255}\<close>,
  the array returned by \<^verbatim>\<open>generateInverseSBox\<close> satisfies \<open>inverse[forward[i]] = i\<close> and
  \<open>forward[inverse[i]] = i\<close> for every \<open>i\<close> in \<open>0..255\<close>.
\<close>

theorem generateInverseSBox_inverse_law:
  assumes "is_bijection tab" and "i < 256"
  shows "generateInverseSBox tab (sbox_at tab i) = Some i
       \<and> (\<exists>j. generateInverseSBox tab (Number (int i)) = Some j
              \<and> sbox_at tab j = Number (int i))"
proof -
  have one: "generateInverseSBox tab (sbox_at tab i) = Some i"
    using assms by (simp add: is_bijection_sbox_at generateInverseSBox_at)
  obtain j where j: "j < 256" "tab ! j = int i"
    using is_bijection_onto [OF assms] by blast
  have "generateInverseSBox tab (Number (int i)) = Some j"
    using generateInverseSBox_at [OF assms(1) j(1)] j(2) by simp
  moreover have "sbox_at tab j = Number (int i)"
    using is_bijection_sbox_at(1) [OF assms(1) j(1)] j(2) by simp
  ultimately show ?thesis using one by blast
qed

theorem generateInverseSBox_inverse_law_witness:
  "is_bijection identity_table \<and> (7::nat) < 256
   \<and> generateInverseSBox identity_table (sbox_at identity_table 7) = Some 7
   \<and> (\<exists>j. generateInverseSBox identity_table (Number (int 7)) = Some j
          \<and> sbox_at identity_table j = Number (int 7))"
  using generateInverseSBox_inverse_law [OF is_bijection_identity_table, of 7]
    is_bijection_identity_table
  by simp

subsection \<open>A table that is not a bijection\<close>

lemma length_duplicate_table: "length duplicate_table = 256"
  by (simp add: duplicate_table_def identity_table_def)

lemma sbox_at_duplicate_table:
  "i < 256 \<Longrightarrow>
   sbox_at duplicate_table i = Number (if i = 3 \<or> i = 7 then 10 else int i)"
  by (auto simp: sbox_at_def duplicate_table_def identity_table_def nth_list_update)

lemma duplicate_table_not_bijection: "\<not> is_bijection duplicate_table"
proof
  assume "is_bijection duplicate_table"
  then have "distinct duplicate_table" by (simp add: is_bijection_def)
  moreover have "duplicate_table ! 3 = duplicate_table ! 7"
    by (simp add: duplicate_table_def identity_table_def nth_list_update)
  ultimately have "(3::nat) = 7"
    by (simp add: nth_eq_iff_index_eq length_duplicate_table)
  then show False by simp
qed

lemma generateInverseSBox_duplicate_table:
  "generateInverseSBox duplicate_table (sbox_at duplicate_table 3) = Some 10"
proof -
  have "inverse_loop duplicate_table 256 new_Array_256 (sbox_at duplicate_table 10) = Some 10"
    by (subst inverse_loop_last_write) (auto simp: sbox_at_duplicate_table)
  then show ?thesis by (simp add: generateInverseSBox_def sbox_at_duplicate_table)
qed

text \<open>
  A raw table in which some value of \<open>0..255\<close> is missing has the wrong length, a value
  out of range, or a repeated value (pigeonhole), so it fails one of the three checks.
\<close>

lemma missing_value_not_bijection:
  assumes "0 \<le> v" and "v \<le> 255" and "v \<notin> set raw"
  shows "\<not> is_bijection raw"
proof
  assume "is_bijection raw"
  then have "set raw = {0..255}" by (rule is_bijection_set)
  with assms show False by simp
qed

lemma construct_accepts_iff:
  "(\<exists>t. construct raw = Inr t) = is_bijection raw"
  by (auto simp: construct_def is_bijection_def list_all_iff)

lemma construct_rejects:
  "\<not> is_bijection raw \<Longrightarrow> \<exists>r. construct raw = Inl (NotBijective r)"
  by (auto simp: construct_def is_bijection_def list_all_iff)

text \<open>
  C3.  Rejection completeness.  \<open>construct\<close> rejects with \<open>NotBijective\<close> every raw table
  whose length is not 256, or that contains a value outside \<open>0..255\<close>, or in which some
  value of \<open>0..255\<close> is repeated or missing.  No such table is accepted: whenever
  \<open>construct\<close> returns a table, the raw table has length 256, its values are in range and
  distinct, every value of \<open>0..255\<close> occurs in it, and the inverse is the one derived from
  that very table, with \<open>inverse[forward[i]] = i\<close> for every \<open>i\<close>.
\<close>

theorem construct_rejection_completeness:
  "(length raw \<noteq> 256 \<or> (\<exists>v \<in> set raw. v < 0 \<or> 255 < v) \<or> \<not> distinct raw
      \<or> (\<exists>v. 0 \<le> v \<and> v \<le> 255 \<and> v \<notin> set raw)
    \<longrightarrow> (\<exists>r. construct raw = Inl (NotBijective r)) \<and> (\<forall>t. construct raw \<noteq> Inr t))
   \<and> (length raw \<noteq> 256 \<longrightarrow> construct raw = Inl (NotBijective WrongLength))
   \<and> (construct raw = Inr t \<longrightarrow>
        length raw = 256 \<and> (\<forall>v \<in> set raw. 0 \<le> v \<and> v \<le> 255) \<and> distinct raw
        \<and> set raw = {0..255}
        \<and> t = \<lparr>table_forward = raw, table_inverse = generateInverseSBox raw\<rparr>
        \<and> (\<forall>i<256. table_inverse t (sbox_at raw i) = Some i))"
proof -
  have bad: "\<not> is_bijection raw"
    if h: "length raw \<noteq> 256 \<or> (\<exists>v \<in> set raw. v < 0 \<or> 255 < v) \<or> \<not> distinct raw
        \<or> (\<exists>v. 0 \<le> v \<and> v \<le> 255 \<and> v \<notin> set raw)"
  proof
    assume bij: "is_bijection raw"
    then have "length raw = 256" "\<forall>v \<in> set raw. 0 \<le> v \<and> v \<le> 255" "distinct raw"
      by (simp_all add: is_bijection_def)
    with h have "\<exists>v. 0 \<le> v \<and> v \<le> 255 \<and> v \<notin> set raw"
      by force
    with bij missing_value_not_bijection show False by blast
  qed
  have one: "(\<exists>r. construct raw = Inl (NotBijective r)) \<and> (\<forall>t. construct raw \<noteq> Inr t)"
    if "length raw \<noteq> 256 \<or> (\<exists>v \<in> set raw. v < 0 \<or> 255 < v) \<or> \<not> distinct raw
        \<or> (\<exists>v. 0 \<le> v \<and> v \<le> 255 \<and> v \<notin> set raw)"
    using bad [OF that] construct_rejects [of raw] construct_accepts_iff [of raw] by auto
  have two: "length raw \<noteq> 256 \<longrightarrow> construct raw = Inl (NotBijective WrongLength)"
    by (simp add: construct_def)
  have three: "length raw = 256 \<and> (\<forall>v \<in> set raw. 0 \<le> v \<and> v \<le> 255) \<and> distinct raw
        \<and> set raw = {0..255}
        \<and> t = \<lparr>table_forward = raw, table_inverse = generateInverseSBox raw\<rparr>
        \<and> (\<forall>i<256. table_inverse t (sbox_at raw i) = Some i)"
    if acc: "construct raw = Inr t"
  proof -
    from acc have bij: "is_bijection raw"
      using construct_accepts_iff [of raw] by blast
    from acc have t: "t = \<lparr>table_forward = raw, table_inverse = generateInverseSBox raw\<rparr>"
      by (auto simp: construct_def split: if_splits)
    have inv: "\<forall>i<256. table_inverse t (sbox_at raw i) = Some i"
      using is_bijection_sbox_at(1) [OF bij] generateInverseSBox_at [OF bij]
      by (simp add: t)
    from bij is_bijection_set [OF bij] t inv show ?thesis
      by (simp add: is_bijection_def)
  qed
  from one two three show ?thesis by blast
qed

text \<open>
  Scenario 3 of the specification, the table with \<open>forward[3] = forward[7] = 10\<close>, a table
  that is too short, and a table with the value 256.
\<close>

theorem construct_rejection_completeness_witness:
  "\<not> distinct duplicate_table
   \<and> construct duplicate_table = Inl (NotBijective DuplicateOrMissing)
   \<and> construct [0, 1, 2] = Inl (NotBijective WrongLength)
   \<and> (\<exists>r. construct (identity_table[0 := 256]) = Inl (NotBijective r))
   \<and> (\<exists>t. construct identity_table = Inr t)"
proof -
  have d: "\<not> distinct duplicate_table"
  proof
    assume "distinct duplicate_table"
    moreover have "duplicate_table ! 3 = duplicate_table ! 7"
      by (simp add: duplicate_table_def identity_table_def nth_list_update)
    ultimately have "(3::nat) = 7"
      by (simp add: nth_eq_iff_index_eq length_duplicate_table)
    then show False by simp
  qed
  have "\<forall>i<256. 0 \<le> duplicate_table ! i \<and> duplicate_table ! i \<le> 255"
    by (simp add: duplicate_table_def identity_table_def nth_list_update)
  then have rg: "list_all (\<lambda>v. 0 \<le> v \<and> v \<le> 255) duplicate_table"
    by (simp add: list_all_length length_duplicate_table)
  have r: "(256::int) \<in> set (identity_table[0 := 256])"
    by (simp add: identity_table_def set_update_memI)
  from construct_rejection_completeness [of duplicate_table] d
  obtain r1 where c1: "construct duplicate_table = Inl (NotBijective r1)" by blast
  have c1': "construct duplicate_table = Inl (NotBijective DuplicateOrMissing)"
    using d rg by (simp add: construct_def length_duplicate_table)
  from construct_rejection_completeness [of "[0, 1, 2]"]
  have c2: "construct [0, 1, 2] = Inl (NotBijective WrongLength)" by simp
  from r have "\<exists>v \<in> set (identity_table[0 := 256]). v < 0 \<or> 255 < v"
    by force
  with construct_rejection_completeness [of "identity_table[0 := 256]"]
  have c3: "\<exists>r. construct (identity_table[0 := 256]) = Inl (NotBijective r)" by blast
  have c4: "\<exists>t. construct identity_table = Inr t"
    using is_bijection_identity_table by (simp add: construct_accepts_iff)
  from d c1' c2 c3 c4 show ?thesis by blast
qed

section \<open>Properties of the ciphers\<close>

lemma unat_byte_less: "unat (b :: byte) < 256"
  using unsigned_less [of b, where ?'a = nat] by simp

lemma uint_word_of_int_byte:
  "0 \<le> v \<Longrightarrow> v \<le> 255 \<Longrightarrow> uint (word_of_int v :: byte) = v"
  by (simp add: uint_word_of_int_eq take_bit_int_eq_self)

lemma backward_forward:
  assumes "is_bijection tab"
  shows "backward (generateInverseSBox tab) (forward tab b) = b"
proof -
  have lt: "unat b < 256" by (rule unat_byte_less)
  note at = is_bijection_sbox_at [OF assms lt]
  have "uint (word_of_int (tab ! unat b) :: byte) = tab ! unat b"
    using at(2,3) by (rule uint_word_of_int_byte)
  then show ?thesis
    using at generateInverseSBox_at [OF assms lt]
    by (simp add: backward_def forward_def)
qed

text \<open>
  C1.  Round-trip law.  For every table accepted as a bijection and every plaintext byte
  sequence \<open>p\<close>, the empty one included, decoding the ciphertext of \<open>encode\<close> with the
  original length that \<open>encode\<close> returns yields \<open>p\<close>.
\<close>

theorem decode_encode_round_trip:
  assumes "is_bijection tab"
  shows "decode (fst (encode p tab)) (generateInverseSBox tab) (Some (snd (encode p tab))) = Inr p"
proof -
  have "map (backward (generateInverseSBox tab)) (map (forward tab) q) = q" for q
    by (induction q) (simp_all add: backward_forward [OF assms])
  then show ?thesis
    by (simp add: decode_def encode_def add_padding_def)
qed

theorem decode_encode_round_trip_witness:
  "is_bijection identity_table
   \<and> decode (fst (encode [65] identity_table)) (generateInverseSBox identity_table)
        (Some (snd (encode [65] identity_table))) = Inr [65]
   \<and> decode (fst (encode [] identity_table)) (generateInverseSBox identity_table)
        (Some (snd (encode [] identity_table))) = Inr []"
  using decode_encode_round_trip [OF is_bijection_identity_table, of "[65]"]
    decode_encode_round_trip [OF is_bijection_identity_table, of "[]"]
    is_bijection_identity_table
  by simp

text \<open>
  The fallback of the specification agrees: without the original length, \<open>decode\<close>
  strips exactly the padding that \<open>encode\<close> added.
\<close>

lemma pad_length_bounds: "0 < pad_length n" "pad_length n \<le> 16"
  by (simp_all add: pad_length_def block_size_def)

lemma remove_padding_add_padding: "remove_padding (add_padding p) = Inr p"
proof -
  let ?k = "pad_length (length p)"
  have k: "0 < ?k" "?k \<le> 16" by (rule pad_length_bounds)+
  have u: "unat (word_of_nat ?k :: byte) = ?k"
    using k(2) by (simp add: unat_of_nat take_bit_nat_eq_self)
  have l: "last (add_padding p) = word_of_nat ?k"
    using k(1) by (simp add: add_padding_def)
  have ne: "add_padding p \<noteq> []"
    using k(1) by (simp add: add_padding_def)
  show ?thesis
    using k ne by (simp add: remove_padding_def l u Let_def block_size_def) (simp add: add_padding_def)
qed

lemma decode_encode_fallback:
  assumes "is_bijection tab"
  shows "decode (fst (encode p tab)) (generateInverseSBox tab) None = Inr p"
proof -
  have "map (backward (generateInverseSBox tab)) (map (forward tab) q) = q" for q
    by (induction q) (simp_all add: backward_forward [OF assms])
  then show ?thesis
    by (simp add: decode_def encode_def remove_padding_add_padding)
qed

text \<open>
  Scenario 1 of the specification: with the identity table, \<open>[65]\<close> is encoded as the
  byte 65 followed by fifteen bytes 15, with original length 1.
\<close>

lemma forward_identity_table: "forward identity_table b = b"
proof -
  have "unat b < 256" by (rule unat_byte_less)
  then show ?thesis
    by (simp add: forward_def sbox_at_identity_table)
qed

lemma encode_scenario_1: "encode [65] identity_table = (65 # replicate 15 15, 1)"
  by (simp add: encode_def add_padding_def pad_length_def block_size_def
      forward_identity_table)



subsection \<open>The demo path\<close>

lemma code_unit_mod_256: "(word_of_nat (unat c mod 256) :: code_unit) = c mod 256"
  by (simp add: word_unat_eq_iff unat_of_nat unat_mod take_bit_nat_eq_self)

lemma code_unit_mod_256_fixed: "((c :: code_unit) mod 256 = c) = (c < 256)"
proof
  assume "c mod 256 = c"
  then have "unat c mod 256 = unat c" by (simp add: word_unat_eq_iff unat_mod)
  then have "unat c < 256" by (metis mod_less_divisor zero_less_numeral)
  then show "c < 256" by (simp add: word_less_nat_alt)
next
  assume "c < 256"
  then show "c mod 256 = c" by (simp add: word_less_nat_alt word_unat_eq_iff unat_mod)
qed

lemma demo_substitution:
  assumes "is_bijection tab"
  shows "sbox_at tab (unat (c :: code_unit) mod 256) = Number (tab ! (unat c mod 256))"
    and "fromCharCode (generateInverseSBox tab (Number (tab ! (unat c mod 256)))) = c mod 256"
proof -
  have lt: "unat c mod 256 < 256" by simp
  show "sbox_at tab (unat c mod 256) = Number (tab ! (unat c mod 256))"
    by (rule is_bijection_sbox_at(1) [OF assms lt])
  show "fromCharCode (generateInverseSBox tab (Number (tab ! (unat c mod 256)))) = c mod 256"
    by (simp add: generateInverseSBox_at [OF assms lt] fromCharCode_def code_unit_mod_256)
qed

lemma doCrypto_bijection:
  assumes "is_bijection tab" and "txt \<noteq> []"
  shows "doCrypto tab (generateInverseSBox tab) txt =
         Inr (Shown (map (\<lambda>c. Number (tab ! (unat c mod 256))) txt) (map (\<lambda>c. c mod 256) txt))"
proof -
  have ciph: "map (\<lambda>c. sbox_at tab (unat c mod 256)) txt =
              map (\<lambda>c. Number (tab ! (unat c mod 256))) txt"
    by (simp add: demo_substitution(1) [OF assms(1)])
  have "Undefined \<notin> set (map (\<lambda>c. Number (tab ! (unat c mod 256))) txt)"
    by auto
  then show ?thesis
    using assms(2)
    by (simp add: doCrypto_def ciph Let_def comp_def demo_substitution(2) [OF assms(1)])
qed

text \<open>
  C9.  In the interactive demo path every code unit \<open>c\<close> of the input is substituted
  through the table at the index \<open>c mod 256\<close>; with the inverse of a bijective table the
  displayed decryption is the input with every code unit \<open>c\<close> replaced by \<open>c mod 256\<close>, so
  it reproduces the input exactly if and only if every code unit is below 256.
\<close>

theorem doCrypto_decrypts_modulo_256:
  assumes "is_bijection tab" and "txt \<noteq> []"
  shows "\<exists>ciph dec. doCrypto tab (generateInverseSBox tab) txt = Inr (Shown ciph dec)
           \<and> ciph = map (\<lambda>c. sbox_at tab (unat c mod 256)) txt
           \<and> dec = map (\<lambda>c. c mod 256) txt
           \<and> ((dec = txt) = (\<forall>c \<in> set txt. c < 256))"
proof -
  have "(map (\<lambda>c. c mod 256) txt = txt) = (\<forall>c \<in> set txt. c < 256)"
    using map_eq_conv [of "\<lambda>c. c mod 256" "txt" id]
    by (simp add: code_unit_mod_256_fixed)
  then show ?thesis
    by (simp add: doCrypto_bijection [OF assms] demo_substitution(1) [OF assms(1)])
qed

theorem doCrypto_decrypts_modulo_256_witness:
  "is_bijection identity_table \<and> [0x41, 0x142 :: code_unit] \<noteq> []
   \<and> (\<exists>ciph dec. doCrypto identity_table (generateInverseSBox identity_table) [0x41, 0x142]
          = Inr (Shown ciph dec)
        \<and> ciph = [Number 0x41, Number 0x42]
        \<and> dec = [0x41, 0x42]
        \<and> dec \<noteq> [0x41, 0x142])"
  using doCrypto_decrypts_modulo_256 [OF is_bijection_identity_table, of "[0x41, 0x142]"]
    is_bijection_identity_table
  by (simp add: sbox_at_identity_table unat_mod)

section \<open>Properties of the numbers\<close>

subsection \<open>Binades\<close>

declare ilog2.simps [simp del]

lemma ilog2_bounds:
  "0 < n \<Longrightarrow> 2 ^ ilog2 n \<le> n \<and> n < 2 ^ Suc (ilog2 n)"
proof (induction n rule: ilog2.induct)
  case (1 n)
  show ?case
  proof (cases "n < 2")
    case True
    with "1.prems" have "n = 1" by simp
    then show ?thesis by (simp add: ilog2.simps)
  next
    case False
    then have pos: "0 < n div 2" by simp
    from "1.IH" [OF False pos]
    have ih: "2 ^ ilog2 (n div 2) \<le> n div 2" "n div 2 < 2 ^ Suc (ilog2 (n div 2))"
      by simp_all
    have eq: "ilog2 n = Suc (ilog2 (n div 2))"
      using False by (subst ilog2.simps) simp
    from ih(1) have a: "2 * 2 ^ ilog2 (n div 2) \<le> n" by arith
    from ih(2) have b: "n < 2 * 2 ^ Suc (ilog2 (n div 2))" by arith
    from a b show ?thesis by (simp add: eq)
  qed
qed

lemma binade_bounds:
  assumes "x \<noteq> 0"
  shows "2 powi binade x \<le> \<bar>x\<bar>" and "\<bar>x\<bar> < 2 powi (binade x + 1)"
proof -
  have "2 powi binade x \<le> \<bar>x\<bar> \<and> \<bar>x\<bar> < 2 powi (binade x + 1)"
  proof (cases "1 \<le> \<bar>x\<bar>")
    case True
    let ?n = "nat \<lfloor>\<bar>x\<bar>\<rfloor>"
    have n1: "0 < ?n" using True by simp
    have le: "real ?n \<le> \<bar>x\<bar>" using True by simp
    have lt: "\<bar>x\<bar> < real ?n + 1" using True by simp
    note b = ilog2_bounds [OF n1]
    have k: "binade x = int (ilog2 ?n)" using True by (simp add: binade_def)
    have "(2::real) ^ ilog2 ?n \<le> real ?n"
      using b by (metis of_nat_le_iff of_nat_numeral of_nat_power)
    then have "(2::real) ^ ilog2 ?n \<le> \<bar>x\<bar>"
      using le by (rule order_trans)
    then have one: "2 powi binade x \<le> \<bar>x\<bar>"
      by (simp add: k)
    have "real ?n + 1 \<le> 2 ^ Suc (ilog2 ?n)"
    proof -
      from b have "?n + 1 \<le> 2 ^ Suc (ilog2 ?n)" by simp
      then have "real (?n + 1) \<le> real (2 ^ Suc (ilog2 ?n))"
        by (rule iffD2 [OF of_nat_le_iff])
      then show ?thesis by simp
    qed
    with lt have "\<bar>x\<bar> < 2 ^ Suc (ilog2 ?n)"
      by (rule less_le_trans)
    moreover have "(2::real) powi (binade x + 1) = 2 ^ Suc (ilog2 ?n)"
      unfolding k by (simp add: power_int_add)
    ultimately have two: "\<bar>x\<bar> < 2 powi (binade x + 1)"
      by simp
    from one two show ?thesis by simp
  next
    case False
    then have small: "\<bar>x\<bar> < 1" by simp
    have pos: "0 < \<bar>x\<bar>" using assms by simp
    let ?y = "1 / \<bar>x\<bar>"
    let ?c = "\<lceil>?y\<rceil>"
    let ?m = "nat (?c - 1)"
    let ?j = "ilog2 ?m"
    have y1: "1 < ?y" using small pos by simp
    then have c2: "2 \<le> ?c" by linarith
    then have m1: "0 < ?m" by simp
    note b = ilog2_bounds [OF m1]
    have k: "binade x = - int ?j - 1" using False by (simp add: binade_def)
    from c2 have "0 \<le> ?c - 1" by linarith
    then have mi: "int ?m = ?c - 1" by (rule nat_0_le)
    have "real ?m = of_int (int ?m)" by simp
    then have mr: "real ?m = of_int ?c - 1"
      unfolding mi by simp
    have my: "real ?m < ?y"
      unfolding mr by linarith
    have "(2::real) ^ ?j \<le> real ?m"
      using b by (metis of_nat_le_iff of_nat_numeral of_nat_power)
    from this my have lo: "2 ^ ?j < ?y" by (rule le_less_trans)
    have "?m + 1 \<le> 2 ^ Suc ?j" using b by simp
    then have "real (?m + 1) \<le> real (2 ^ Suc ?j)"
      by (rule iffD2 [OF of_nat_le_iff])
    then have "real ?m + 1 \<le> (2::real) ^ Suc ?j"
      by simp
    then have ch: "of_int ?c \<le> (2::real) ^ Suc ?j"
      unfolding mr by linarith
    have "?y \<le> of_int ?c" by linarith
    from this ch have hi: "?y \<le> 2 ^ Suc ?j" by (rule order_trans)
    have one: "2 powi binade x \<le> \<bar>x\<bar>"
    proof -
      from hi pos have "1 \<le> 2 ^ Suc ?j * \<bar>x\<bar>"
        by (simp add: field_simps)
      then have "1 / 2 ^ Suc ?j \<le> \<bar>x\<bar>"
        by (simp add: field_simps)
      moreover have "(2::real) powi binade x = 1 / 2 ^ Suc ?j"
        unfolding k by (simp add: power_int_def nat_add_distrib field_simps)
      ultimately show ?thesis by simp
    qed
    have two: "\<bar>x\<bar> < 2 powi (binade x + 1)"
    proof -
      from lo pos have "2 ^ ?j * \<bar>x\<bar> < 1"
        by (simp add: field_simps)
      then have "\<bar>x\<bar> < 1 / 2 ^ ?j"
        by (simp add: field_simps)
      moreover have "(2::real) powi (binade x + 1) = 1 / 2 ^ ?j"
        unfolding k by (simp add: power_int_def field_simps)
      ultimately show ?thesis by simp
    qed
    from one two show ?thesis by simp
  qed
  then show "2 powi binade x \<le> \<bar>x\<bar>" and "\<bar>x\<bar> < 2 powi (binade x + 1)" by simp_all
qed

lemma powi_mono: "a \<le> b \<Longrightarrow> (2::real) powi a \<le> 2 powi b"
  by (rule power_int_increasing) simp_all

lemma powi_less_imp: "(2::real) powi a < 2 powi b \<Longrightarrow> a < b"
  using powi_mono [of b a] by (cases "a < b") simp_all

lemma binade_unique:
  assumes "2 powi k \<le> \<bar>x\<bar>" and "\<bar>x\<bar> < 2 powi (k + 1)"
  shows "binade x = k"
proof -
  have "0 < \<bar>x\<bar>"
    using assms(1) zero_less_power_int [of "2::real" k] by linarith
  then have nz: "x \<noteq> 0" by simp
  note b = binade_bounds [OF nz]
  have "(2::real) powi k < 2 powi (binade x + 1)" using assms(1) b(2) by simp
  then have "k < binade x + 1" by (rule powi_less_imp)
  moreover have "(2::real) powi binade x < 2 powi (k + 1)" using assms(2) b(1) by simp
  then have "binade x < k + 1" by (rule powi_less_imp)
  ultimately show ?thesis by simp
qed

subsection \<open>Numbers that are doubles\<close>

text \<open>A number \<open>m * 2^e\<close> with \<open>|m| < 2^53\<close> and \<open>- 1074 \<le> e\<close> is a double: rounding keeps it.\<close>

lemma round_half_even_of_int: "round_half_even (of_int m) = m"
  by (simp add: round_half_even_def)

lemma to_double_exact:
  assumes x: "x = of_int m * 2 powi e" and m: "\<bar>m\<bar> < 2 ^ 53" and e: "- 1074 \<le> e"
  shows "to_double x = x"
proof (cases "x = 0")
  case True
  then show ?thesis by (simp add: to_double_def)
next
  case False
  let ?E = "ulp_exponent x"
  note b = binade_bounds [OF False]
  have "\<bar>x\<bar> = of_int \<bar>m\<bar> * 2 powi e"
    unfolding x by (simp add: abs_mult)
  also have "\<dots> < 2 ^ 53 * 2 powi e"
  proof -
    from m have "real_of_int \<bar>m\<bar> < real_of_int (2 ^ 53)"
      by (rule iffD2 [OF of_int_less_iff])
    then have "real_of_int \<bar>m\<bar> < 2 ^ 53" by simp
    then show ?thesis by (simp add: zero_less_power_int)
  qed
  also have "\<dots> = 2 powi (53 + e)"
    by (simp add: power_int_add)
  finally have "\<bar>x\<bar> < 2 powi (53 + e)" .
  with b(1) have "(2::real) powi binade x < 2 powi (53 + e)" by simp
  then have "binade x < 53 + e" by (rule powi_less_imp)
  with e have le: "?E \<le> e" by (simp add: ulp_exponent_def)
  define d where "d = nat (e - ?E)"
  have de: "e = ?E + int d" using le by (simp add: d_def)
  have "x / 2 powi ?E = of_int m * (2 powi e / 2 powi ?E)"
    unfolding x by simp
  also have "2 powi e / 2 powi ?E = (2::real) ^ d"
    by (subst de) (simp add: power_int_add)
  also have "of_int m * (2::real) ^ d = of_int (m * 2 ^ d)"
    by simp
  finally have q: "x / 2 powi ?E = of_int (m * 2 ^ d)" .
  have "to_double x = of_int (m * 2 ^ d) * 2 powi ?E"
    using False by (simp add: to_double_def q round_half_even_of_int del: of_int_mult of_int_power)
  also have "\<dots> = x / 2 powi ?E * 2 powi ?E"
    by (simp only: q)
  also have "\<dots> = x" by simp
  finally show ?thesis .
qed



subsection \<open>Rounding is odd and monotone\<close>













subsection \<open>Concrete numbers\<close>

text \<open>The rounding of a number in the normal range, once its binade is known.\<close>

lemma to_double_normal:
  assumes "2 powi k \<le> \<bar>x\<bar>" and "\<bar>x\<bar> < 2 powi (k + 1)" and "- 1022 \<le> k"
  shows "to_double x = of_int (round_half_even (x / 2 powi (k - 52))) * 2 powi (k - 52)"
proof -
  have "0 < \<bar>x\<bar>"
    using assms(1) zero_less_power_int [of "2::real" k] by linarith
  then have nz: "x \<noteq> 0" by simp
  have "binade x = k" using assms(1,2) by (rule binade_unique)
  then have "ulp_exponent x = k - 52" using assms(3) by (simp add: ulp_exponent_def)
  then show ?thesis using nz by (simp add: to_double_def)
qed



text \<open>The decimals they are written with are rounded to them.\<close>

lemma decimal_examples:
  "to_double (49 / 100) = d_0_49" "to_double (52 / 100) = d_0_52"
  "to_double (51 / 100) = d_0_51" "to_double (3 / 10) = d_0_3" "to_double (7 / 10) = d_0_7"
  "to_double (1 / 10) = d_0_1" "to_double (9 / 10) = d_0_9"
proof -
  show "to_double (49 / 100) = d_0_49"
    unfolding d_0_49_def
    by (subst to_double_normal [of "- 2"]) (simp_all add: round_half_even_def)
  show "to_double (52 / 100) = d_0_52"
    unfolding d_0_52_def
    by (subst to_double_normal [of "- 1"]) (simp_all add: round_half_even_def)
  show "to_double (51 / 100) = d_0_51"
    unfolding d_0_51_def
    by (subst to_double_normal [of "- 1"]) (simp_all add: round_half_even_def)
  show "to_double (3 / 10) = d_0_3"
    unfolding d_0_3_def
    by (subst to_double_normal [of "- 2"]) (simp_all add: round_half_even_def)
  show "to_double (7 / 10) = d_0_7"
    unfolding d_0_7_def
    by (subst to_double_normal [of "- 1"]) (simp_all add: round_half_even_def)
  show "to_double (1 / 10) = d_0_1"
    unfolding d_0_1_def
    by (subst to_double_normal [of "- 4"]) (simp_all add: round_half_even_def)
  show "to_double (9 / 10) = d_0_9"
    unfolding d_0_9_def
    by (subst to_double_normal [of "- 1"]) (simp_all add: round_half_even_def)
qed


text \<open>Rounding to four decimals, for a value from 0 and below \<open>10^21\<close>.\<close>

lemma double_r4_nonneg:
  assumes "0 \<le> v" and "v < 10 ^ 21"
  shows "double_r4 v = to_double (nearest_4_decimals v)"
proof (cases "v = 0")
  case True
  then show ?thesis
    by (simp add: double_r4_def nearest_4_decimals_def to_double_def)
next
  case False
  with assms(1) have "0 < v" by simp
  with assms(2) show ?thesis
    by (simp add: double_r4_def nearest_4_decimals_def)
qed

text \<open>
  Rounding to four decimals: the double written \<^verbatim>\<open>0.06255\<close> lies below the decimal and is
  rounded down, and \<open>1/32 = 0.03125\<close>, half way between two decimals, is rounded up.
\<close>

lemma double_r4_examples:
  "double_r4 (563400313384049 / 2 ^ 53) = 1 / 16"
  "double_r4 (1 / 32) = 4510805386774289 / 2 ^ 57"
  "double_r4 (1 / 2) = 1 / 2"
  "double_r4 (1 / 4) = 1 / 4"
proof -
  have n: "nearest_4_decimals (563400313384049 / 2 ^ 53) = 1 / 16"
    "nearest_4_decimals (1 / 32) = 313 / 10000"
    "nearest_4_decimals (1 / 2) = 1 / 2" "nearest_4_decimals (1 / 4) = 1 / 4"
    by (simp_all add: nearest_4_decimals_def)
  have t: "to_double (1 / 16) = 1 / 16" "to_double (1 / 2) = 1 / 2" "to_double (1 / 4) = 1 / 4"
    using to_double_exact [of "1 / 16" 1 "- 4"] to_double_exact [of "1 / 2" 1 "- 1"]
      to_double_exact [of "1 / 4" 1 "- 2"]
    by simp_all
  have u: "to_double (313 / 10000) = 4510805386774289 / 2 ^ 57"
    by (subst to_double_normal [of "- 5"]) (simp_all add: round_half_even_def)
  have "double_r4 (563400313384049 / 2 ^ 53) =
        to_double (nearest_4_decimals (563400313384049 / 2 ^ 53))"
    by (rule double_r4_nonneg) simp_all
  then show "double_r4 (563400313384049 / 2 ^ 53) = 1 / 16"
    by (simp only: n t)
  have "double_r4 (1 / 32) = to_double (nearest_4_decimals (1 / 32))"
    by (rule double_r4_nonneg) simp_all
  then show "double_r4 (1 / 32) = 4510805386774289 / 2 ^ 57"
    by (simp only: n u)
  have "double_r4 (1 / 2) = to_double (nearest_4_decimals (1 / 2))"
    by (rule double_r4_nonneg) simp_all
  then show "double_r4 (1 / 2) = 1 / 2"
    by (simp only: n t)
  have "double_r4 (1 / 4) = to_double (nearest_4_decimals (1 / 4))"
    by (rule double_r4_nonneg) simp_all
  then show "double_r4 (1 / 4) = 1 / 4"
    by (simp only: n t)
qed

lemma double_dev_dyadic: "double_dev (1 / 2) = 0" "double_dev (1 / 4) = 1 / 4"
  using to_double_exact [of "- (1 / 4)" "- 1" "- 2"]
  by (simp_all add: double_dev_def to_double_def)

section \<open>Properties of the comparison\<close>

subsection \<open>The flags of a row\<close>

lemma js_lt_asym: "js_lt x y \<Longrightarrow> \<not> js_lt y x"
  by (cases x; cases y) auto

lemma flags_higher:
  "renderComparisonRow dev ''higher'' x y = (js_gt x y, \<not> js_gt x y \<and> js_gt y x)"
  by (simp add: renderComparisonRow_def)

lemma flags_lower:
  "renderComparisonRow dev ''lower'' x y = (js_lt x y, \<not> js_lt x y \<and> js_lt y x)"
  by (simp add: renderComparisonRow_def)

lemma flags_closer:
  "renderComparisonRow dev ''closer_to_0.5'' x y =
   (js_lt (abs_minus_half dev x) (abs_minus_half dev y),
    \<not> js_lt (abs_minus_half dev x) (abs_minus_half dev y)
    \<and> js_lt (abs_minus_half dev y) (abs_minus_half dev x))"
  by (simp add: renderComparisonRow_def Let_def)

lemma verdict_higher:
  "verdict_of (renderComparisonRow dev ''higher'' x y) = verdict_of (js_gt x y, js_gt y x)"
  by (simp add: flags_higher verdict_of_def)

lemma verdict_lower:
  "verdict_of (renderComparisonRow dev ''lower'' x y) = verdict_of (js_lt x y, js_lt y x)"
  by (simp add: flags_lower verdict_of_def)

lemma verdict_closer:
  "verdict_of (renderComparisonRow dev ''closer_to_0.5'' x y) =
   verdict_of (js_lt (abs_minus_half dev x) (abs_minus_half dev y),
               js_lt (abs_minus_half dev y) (abs_minus_half dev x))"
  by (simp add: flags_closer verdict_of_def)

lemmas flags = flags_higher flags_lower flags_closer

lemma verdict_of_swap:
  "\<not> (p \<and> q) \<Longrightarrow> verdict_of (q, p) = swap_verdict (verdict_of (p, q))"
  by (auto simp: verdict_of_def swap_verdict_def)

lemma verdict_of_js_lt_swap:
  "verdict_of (js_lt y x, js_lt x y) = swap_verdict (verdict_of (js_lt x y, js_lt y x))"
  using js_lt_asym [of x y] by (intro verdict_of_swap) auto

lemma renderComparisonRow_swap:
  "verdict_of (renderComparisonRow dev compareType y x) =
   swap_verdict (verdict_of (renderComparisonRow dev compareType x y))"
proof (cases "compareType = ''higher''")
  case True
  then show ?thesis
    by (simp only: verdict_higher js_gt_def) (rule verdict_of_js_lt_swap)
next
  case nh: False
  show ?thesis
  proof (cases "compareType = ''lower''")
    case True
    then show ?thesis
      by (simp only: verdict_lower) (rule verdict_of_js_lt_swap)
  next
    case nl: False
    show ?thesis
    proof (cases "compareType = ''closer_to_0.5''")
      case True
      then show ?thesis
        by (simp only: verdict_closer) (rule verdict_of_js_lt_swap)
    next
      case False
      with nh nl show ?thesis
        by (simp add: renderComparisonRow_def verdict_of_def swap_verdict_def)
    qed
  qed
qed



subsection \<open>The summary\<close>

lemma count_win_verdict:
  "count_win p q w =
   (fst w + count_list [verdict_of (p, q)] ABetter,
    snd w + count_list [verdict_of (p, q)] BBetter)"
  by (simp add: count_win_def verdict_of_def)

lemma count_list_Cons_add:
  "count_list (v # vs) y = count_list [v] y + count_list vs y"
  by simp

lemma generateComparisonSummary_aggregate:
  "generateComparisonSummary dev cm em = aggregate_spec (summary_verdicts dev cm em)"
proof -
  let ?vs = "summary_verdicts dev cm em"
  have a: "winsA (generateComparisonSummary dev cm em) = count_list ?vs ABetter"
    unfolding generateComparisonSummary_def summary_verdicts_def Let_def count_win_verdict
      verdict_higher verdict_lower verdict_closer
    by (simp only: outcome.simps fst_conv snd_conv count_list_Cons_add [of _ "_ # _"])
  have b: "winsB (generateComparisonSummary dev cm em) = count_list ?vs BBetter"
    unfolding generateComparisonSummary_def summary_verdicts_def Let_def count_win_verdict
      verdict_higher verdict_lower verdict_closer
    by (simp only: outcome.simps fst_conv snd_conv count_list_Cons_add [of _ "_ # _"])
  have c: "overall (generateComparisonSummary dev cm em) =
     (if winsA (generateComparisonSummary dev cm em) > winsB (generateComparisonSummary dev cm em)
      then ABetter
      else if winsB (generateComparisonSummary dev cm em) > winsA (generateComparisonSummary dev cm em)
      then BBetter else Tie)"
    by (simp add: generateComparisonSummary_def Let_def)
  show ?thesis
    by (rule outcome.equality) (simp_all add: c a b aggregate_spec_def)
qed
lemma exact_r4_examples:
  "exact_r4 (1 / 2) = 1 / 2" "exact_r4 (1 / 4) = 1 / 4" "exact_r4 (1 / 16) = 1 / 16"
  "exact_r4 (1 / 64) = 156 / 10000"
  by (simp_all add: exact_r4_def)

lemma comparisonRows_example:
  "map snd (comparisonRows exact_r4 exact_dev custom_example existing_example) =
   [Tie, Tie, ABetter, Tie, Tie, Tie]"
  by (simp add: comparisonRows_def custom_example_def existing_example_def
      flags js_gt_def toFixed_4_def abs_minus_half_def
      or_zero_def verdict_of_def exact_r4_examples exact_dev_def)

lemma generateComparisonSummary_example:
  "generateComparisonSummary exact_dev custom_example existing_example =
   \<lparr>winsA = 0, winsB = 0, overall = Tie\<rparr>"
  by (simp add: generateComparisonSummary_def custom_example_def existing_example_def
      js_gt_def abs_minus_half_def or_zero_def count_win_def exact_dev_def)

text \<open>The same verdicts and the same summary are computed on the doubles.\<close>

lemma comparisonRows_example_doubles:
  "map snd (comparisonRows double_r4 double_dev custom_example existing_example) =
   [Tie, Tie, ABetter, Tie, Tie, Tie]"
  by (simp add: comparisonRows_def custom_example_def existing_example_def
      flags js_gt_def toFixed_4_def abs_minus_half_def
      or_zero_def verdict_of_def double_r4_examples double_dev_dyadic)

lemma generateComparisonSummary_example_doubles:
  "generateComparisonSummary double_dev custom_example existing_example =
   \<lparr>winsA = 0, winsB = 0, overall = Tie\<rparr>"
  by (simp add: generateComparisonSummary_def custom_example_def existing_example_def
      js_gt_def abs_minus_half_def or_zero_def count_win_def)

text \<open>
  C5 (as stated).  The aggregate would count, for each side, the non-tie verdicts over
  the ten metrics.  For two payloads that differ only in BIC, the BIC row is won by the
  uploaded table, yet the summary counts no win and declares a balance.
\<close>

theorem aggregate_over_ten_metrics_counterexample:
  "map snd (comparisonRows exact_r4 exact_dev custom_example existing_example) =
     [Tie, Tie, ABetter, Tie, Tie, Tie]
   \<and> aggregate_spec (map snd (comparisonRows exact_r4 exact_dev custom_example existing_example))
       = \<lparr>winsA = 1, winsB = 0, overall = ABetter\<rparr>
   \<and> generateComparisonSummary exact_dev custom_example existing_example =
       \<lparr>winsA = 0, winsB = 0, overall = Tie\<rparr>"
  by (simp add: comparisonRows_example generateComparisonSummary_example aggregate_spec_def)

text \<open>
  C5 (amended).  For every pair of payloads, \<^verbatim>\<open>generateComparisonSummary\<close> counts for
  each side the non-tie verdicts over its five comparisons (nonlinearity against NL, SAC,
  LAP, DAP, and the fixed points against TO); ties add to neither count; the overall
  verdict goes to a side exactly when it has strictly more wins, and is a tie otherwise.
\<close>

theorem generateComparisonSummary_counts_wins:
  "winsA (generateComparisonSummary dev cm em) = count_list (summary_verdicts dev cm em) ABetter
   \<and> winsB (generateComparisonSummary dev cm em) = count_list (summary_verdicts dev cm em) BBetter
   \<and> length (summary_verdicts dev cm em) = 5
   \<and> (overall (generateComparisonSummary dev cm em) = ABetter) =
       (winsA (generateComparisonSummary dev cm em) > winsB (generateComparisonSummary dev cm em))
   \<and> (overall (generateComparisonSummary dev cm em) = BBetter) =
       (winsB (generateComparisonSummary dev cm em) > winsA (generateComparisonSummary dev cm em))
   \<and> (overall (generateComparisonSummary dev cm em) = Tie) =
       (winsA (generateComparisonSummary dev cm em) = winsB (generateComparisonSummary dev cm em))"
proof -
  have len: "length (summary_verdicts dev cm em) = 5"
    by (simp add: summary_verdicts_def)
  show ?thesis
    unfolding generateComparisonSummary_aggregate
    by (simp add: aggregate_spec_def len)
qed

theorem generateComparisonSummary_counts_wins_witness:
  "winsA (generateComparisonSummary exact_dev (custom_example\<lparr>nonlinearity := Num 100\<rparr>)
      existing_example) = 0
   \<and> winsB (generateComparisonSummary exact_dev (custom_example\<lparr>nonlinearity := Num 100\<rparr>)
      existing_example) = 1
   \<and> overall (generateComparisonSummary exact_dev (custom_example\<lparr>nonlinearity := Num 100\<rparr>)
      existing_example) = BBetter"
  using generateComparisonSummary_counts_wins
    [of exact_dev "custom_example\<lparr>nonlinearity := Num 100\<rparr>" existing_example]
  by (simp add: summary_verdicts_def custom_example_def existing_example_def
      flags js_gt_def abs_minus_half_def
      or_zero_def verdict_of_def exact_dev_def)

subsection \<open>Swapping the two sides\<close>

lemma count_list_swap_verdict:
  "count_list (map swap_verdict vs) ABetter = count_list vs BBetter"
  "count_list (map swap_verdict vs) BBetter = count_list vs ABetter"
  by (induction vs) (auto simp: swap_verdict_def split: verdict.splits)

lemma aggregate_spec_swap:
  "aggregate_spec (map swap_verdict vs) = swap_outcome (aggregate_spec vs)"
  by (simp add: aggregate_spec_def swap_outcome_def count_list_swap_verdict swap_verdict_def)

lemma or_zero_Num: "x \<noteq> NaN \<Longrightarrow> or_zero x = x"
  by (cases x) (simp_all add: or_zero_def)

lemma summary_verdicts_swap:
  assumes "fixed_points cm \<noteq> NaN" and "TO em \<noteq> NaN"
  shows "summary_verdicts dev (swapped_custom em) (swapped_existing cm em) =
         map swap_verdict (summary_verdicts dev cm em)"
  using assms
  by (simp add: summary_verdicts_def swapped_custom_def swapped_existing_def or_zero_Num
      renderComparisonRow_swap [symmetric])

lemma comparisonRows_swap:
  assumes "fixed_points cm \<noteq> NaN" and "TO em \<noteq> NaN"
  shows "map snd (comparisonRows r4 dev (swapped_custom em) (swapped_existing cm em)) =
         map swap_verdict (map snd (comparisonRows r4 dev cm em))"
  using assms
  by (simp add: comparisonRows_def swapped_custom_def swapped_existing_def or_zero_Num
      renderComparisonRow_swap [symmetric])

text \<open>
  C6.  Comparator symmetry.  Swapping the two values of a row swaps \<open>ABetter\<close> and
  \<open>BBetter\<close> in its verdict and keeps a tie a tie, for every direction and all values; and
  for two payloads of numbers, swapping the payloads swaps the verdict of every row and
  swaps the summary (the two counts and the overall verdict).
\<close>

theorem comparison_symmetry:
  "verdict_of (renderComparisonRow dev compareType y x) =
     swap_verdict (verdict_of (renderComparisonRow dev compareType x y))
   \<and> (verdict_of (renderComparisonRow dev compareType y x) = Tie) =
     (verdict_of (renderComparisonRow dev compareType x y) = Tie)
   \<and> (fixed_points cm \<noteq> NaN \<and> TO em \<noteq> NaN \<longrightarrow>
        map snd (comparisonRows r4 dev (swapped_custom em) (swapped_existing cm em)) =
          map swap_verdict (map snd (comparisonRows r4 dev cm em))
        \<and> generateComparisonSummary dev (swapped_custom em) (swapped_existing cm em) =
          swap_outcome (generateComparisonSummary dev cm em))"
proof -
  have tie: "(swap_verdict v = Tie) = (v = Tie)" for v
    by (cases v) (simp_all add: swap_verdict_def)
  show ?thesis
    by (simp add: renderComparisonRow_swap [of dev compareType y x] tie comparisonRows_swap
        generateComparisonSummary_aggregate summary_verdicts_swap aggregate_spec_swap)
qed

theorem comparison_symmetry_witness:
  "fixed_points (custom_example\<lparr>nonlinearity := Num 100\<rparr>) \<noteq> NaN \<and> TO existing_example \<noteq> NaN
   \<and> generateComparisonSummary exact_dev (custom_example\<lparr>nonlinearity := Num 100\<rparr>)
        existing_example = \<lparr>winsA = 0, winsB = 1, overall = BBetter\<rparr>
   \<and> generateComparisonSummary exact_dev (swapped_custom existing_example)
        (swapped_existing (custom_example\<lparr>nonlinearity := Num 100\<rparr>) existing_example)
       = \<lparr>winsA = 1, winsB = 0, overall = ABetter\<rparr>
   \<and> verdict_of (renderComparisonRow exact_dev ''higher'' (Num 112) (Num (100::real))) = ABetter
   \<and> verdict_of (renderComparisonRow exact_dev ''higher'' (Num 100) (Num (112::real))) = BBetter"
proof -
  have s: "generateComparisonSummary exact_dev (custom_example\<lparr>nonlinearity := Num 100\<rparr>)
        existing_example = \<lparr>winsA = 0, winsB = 1, overall = BBetter\<rparr>"
    by (simp add: generateComparisonSummary_def custom_example_def existing_example_def
        js_gt_def abs_minus_half_def or_zero_def count_win_def exact_dev_def)
  have r: "verdict_of (renderComparisonRow exact_dev ''higher'' (Num 112) (Num (100::real)))
      = ABetter"
    by (simp add: flags js_gt_def verdict_of_def)
  note sym = comparison_symmetry [of exact_dev "''higher''" "Num 100" "Num 112"
      "custom_example\<lparr>nonlinearity := Num 100\<rparr>" existing_example exact_r4]
  have h1: "fixed_points (custom_example\<lparr>nonlinearity := Num 100\<rparr>) \<noteq> NaN"
    by (simp add: custom_example_def)
  have h2: "TO existing_example \<noteq> NaN"
    by (simp add: existing_example_def)
  from sym h1 h2 have
    "generateComparisonSummary exact_dev (swapped_custom existing_example)
        (swapped_existing (custom_example\<lparr>nonlinearity := Num 100\<rparr>) existing_example)
     = swap_outcome (generateComparisonSummary exact_dev
        (custom_example\<lparr>nonlinearity := Num 100\<rparr>) existing_example)"
    by blast
  then have t: "generateComparisonSummary exact_dev (swapped_custom existing_example)
        (swapped_existing (custom_example\<lparr>nonlinearity := Num 100\<rparr>) existing_example)
     = \<lparr>winsA = 1, winsB = 0, overall = ABetter\<rparr>"
    by (simp only: s) (simp add: swap_outcome_def swap_verdict_def)
  from sym have "verdict_of (renderComparisonRow exact_dev ''higher'' (Num 100) (Num (112::real)))
     = swap_verdict (verdict_of (renderComparisonRow exact_dev ''higher'' (Num 112) (Num 100)))"
    by blast
  then have u: "verdict_of (renderComparisonRow exact_dev ''higher'' (Num 100) (Num (112::real)))
     = BBetter"
    by (simp only: r) (simp add: swap_verdict_def)
  show ?thesis
    using h1 h2 s t r u by blast
qed

subsection \<open>The rows\<close>







section \<open>Properties of the ciphertext file\<close>

subsection \<open>Characters\<close>

lemma digit_char_cases:
  assumes "d < 10"
  shows "digit_of 10 (digit_char d) = Some d"
    and "digit_char d \<in> set ''0123456789''"
proof -
  from assms have "d = 0 \<or> d = 1 \<or> d = 2 \<or> d = 3 \<or> d = 4 \<or> d = 5 \<or> d = 6 \<or> d = 7
    \<or> d = 8 \<or> d = 9"
    by arith
  then show "digit_of 10 (digit_char d) = Some d"
    by (elim disjE) (simp_all add: digit_char_def digit_of_def digit_value_def)
  from assms show "digit_char d \<in> set ''0123456789''"
    unfolding digit_char_def by (intro nth_mem) simp
qed

lemma decimal_digit_table:
  "\<forall>c \<in> set ''0123456789''.
     \<not> is_space c \<and> c \<noteq> CHR 0x0A \<and> c \<noteq> CHR ''-'' \<and> c \<noteq> CHR ''+''
     \<and> c \<noteq> CHR ''x'' \<and> c \<noteq> CHR ''X'' \<and> digit_of 10 c \<noteq> None"
  by (simp add: is_space_def digit_of_def digit_value_def)

lemma decimal_digit_props:
  assumes "c \<in> set ''0123456789''"
  shows "\<not> is_space c" and "c \<noteq> CHR 0x0A" and "c \<noteq> CHR ''-''" and "c \<noteq> CHR ''+''"
    and "c \<noteq> CHR ''x''" and "c \<noteq> CHR ''X''" and "digit_of 10 c \<noteq> None"
  using assms decimal_digit_table by blast+

lemma hex_digit_table:
  "\<forall>c \<in> set ''0123456789abcdefABCDEF''. \<not> is_space c \<and> c \<noteq> CHR 0x0A"
  by (simp add: is_space_def)

lemma to_upper_hex_table:
  "map to_upper ''0123456789abcdefABCDEF'' = ''0123456789ABCDEFABCDEF''"
  by (simp add: to_upper_def)

lemma hex_digit_props:
  assumes "is_hex_digit c"
  shows "\<not> is_space c" and "c \<noteq> CHR 0x0A" and "is_upper_hex (to_upper c)"
proof -
  show "\<not> is_space c" and "c \<noteq> CHR 0x0A"
    using assms hex_digit_table unfolding is_hex_digit_def by blast+
  from assms have "to_upper c \<in> to_upper ` set ''0123456789abcdefABCDEF''"
    unfolding is_hex_digit_def by (rule imageI)
  then have "to_upper c \<in> set (map to_upper ''0123456789abcdefABCDEF'')"
    by (simp only: set_map)
  then have "to_upper c \<in> set ''0123456789ABCDEFABCDEF''"
    by (simp only: to_upper_hex_table)
  moreover have "\<forall>u \<in> set ''0123456789ABCDEFABCDEF''. u \<in> set ''0123456789ABCDEF''"
    by simp
  ultimately show "is_upper_hex (to_upper c)"
    unfolding is_upper_hex_def by blast
qed

lemma upper_hex_table: "\<forall>c \<in> set ''0123456789ABCDEF''. to_upper c = c"
  by (simp add: to_upper_def)

lemma to_upper_upper_hex: "is_upper_hex c \<Longrightarrow> to_upper c = c"
  using upper_hex_table unfolding is_upper_hex_def by blast

lemma upper_hex_parse_table:
  "\<forall>c \<in> set ''0123456789ABCDEF''.
     \<not> is_space c \<and> c \<noteq> CHR ''-'' \<and> c \<noteq> CHR ''+'' \<and> c \<noteq> CHR ''x'' \<and> c \<noteq> CHR ''X''
     \<and> digit_of 16 c = Some (hex_value c) \<and> hex_value c < 16"
  by (simp add: is_space_def digit_of_def digit_value_def hex_value_def)

lemma upper_hex_parse_props:
  assumes "is_upper_hex c"
  shows "\<not> is_space c" and "c \<noteq> CHR ''-''" and "c \<noteq> CHR ''+''" and "c \<noteq> CHR ''x''"
    and "c \<noteq> CHR ''X''" and "digit_of 16 c = Some (hex_value c)" and "hex_value c < 16"
  using assms upper_hex_parse_table unfolding is_upper_hex_def by blast+

lemma hex_value_to_upper_table:
  "\<forall>c \<in> set ''0123456789abcdefABCDEF''. hex_value (to_upper c) = hex_value c"
  by (simp add: to_upper_def digit_value_def hex_value_def)

lemma hex_value_to_upper: "is_hex_digit c \<Longrightarrow> hex_value (to_upper c) = hex_value c"
  using hex_value_to_upper_table unfolding is_hex_digit_def by blast

subsection \<open>Printing and parsing a length\<close>

declare dec_digits.simps [simp del]

lemma dec_digits_set: "set (dec_digits n) \<subseteq> set ''0123456789''"
proof (induction n rule: dec_digits.induct)
  case (1 n)
  show ?case
  proof (cases "n < 10")
    case True
    then show ?thesis
      using digit_char_cases(2) [of n] by (subst dec_digits.simps) simp
  next
    case False
    then show ?thesis
      using "1.IH" digit_char_cases(2) [of "n mod 10"]
      by (subst dec_digits.simps) simp
  qed
qed

lemma dec_digits_not_Nil: "dec_digits n \<noteq> []"
  by (subst dec_digits.simps) simp

lemma leading_digits_append:
  "\<forall>c \<in> set xs. digit_of r c \<noteq> None \<Longrightarrow>
   leading_digits r (xs @ ys) = leading_digits r xs @ leading_digits r ys"
  by (induction xs) (auto split: option.splits)

lemma digits_value_snoc: "digits_value r (ds @ [d]) = digits_value r ds * r + d"
  by (simp add: digits_value_def)

lemma leading_digits_dec_digits:
  "digits_value 10 (leading_digits 10 (dec_digits n)) = n"
proof (induction n rule: dec_digits.induct)
  case (1 n)
  show ?case
  proof (cases "n < 10")
    case True
    then show ?thesis
      by (subst dec_digits.simps) (simp add: digit_char_cases(1) digits_value_def)
  next
    case False
    have all: "\<forall>c \<in> set (dec_digits (n div 10)). digit_of 10 c \<noteq> None"
      using dec_digits_set [of "n div 10"] decimal_digit_props(7) by blast
    have "leading_digits 10 (dec_digits n) =
          leading_digits 10 (dec_digits (n div 10)) @ [n mod 10]"
      using False
      by (subst dec_digits.simps) (simp add: leading_digits_append [OF all] digit_char_cases(1))
    then show ?thesis
      using False "1.IH" by (simp add: digits_value_snoc)
  qed
qed

lemma leading_digits_not_Nil:
  "s \<noteq> [] \<Longrightarrow> set s \<subseteq> set ''0123456789'' \<Longrightarrow> leading_digits 10 s \<noteq> []"
proof (cases s)
  case Nil
  assume "s \<noteq> []"
  with Nil show ?thesis by simp
next
  case (Cons c cs)
  assume "set s \<subseteq> set ''0123456789''"
  with Cons have "c \<in> set ''0123456789''" by auto
  then have "digit_of 10 c \<noteq> None" by (rule decimal_digit_props(7))
  with Cons show ?thesis by (auto split: option.splits)
qed

lemma trim_id:
  assumes "s \<noteq> []" and "\<not> is_space (hd s)" and "\<not> is_space (last s)"
  shows "trim s = s"
proof -
  have a: "dropWhile is_space s = s"
    using assms(1,2) by (cases s) simp_all
  have "dropWhile is_space (rev s) = rev s"
    using assms(1,3) by (cases "rev s") (simp_all add: last_rev [symmetric] hd_rev)
  with a show ?thesis by (simp add: trim_def)
qed

lemma trim_no_space:
  assumes "\<forall>c \<in> set s. \<not> is_space c"
  shows "trim s = s"
proof (cases "s = []")
  case True
  then show ?thesis by (simp add: trim_def)
next
  case False
  with assms show ?thesis by (intro trim_id) simp_all
qed

lemma parseInt_digits:
  assumes "s \<noteq> []" and "set s \<subseteq> set ''0123456789''"
  shows "parseInt s 0 = to_js_integer (int (digits_value 10 (leading_digits 10 s)))"
proof -
  obtain c cs where s: "s = c # cs" using assms(1) by (cases s) auto
  with assms(2) have c: "c \<in> set ''0123456789''" by auto
  have sp: "dropWhile is_space s = s"
    using s decimal_digit_props(1) [OF c] by simp
  have sign: "\<not> prefix ''-'' s" "\<not> prefix ''+'' s"
    using s decimal_digit_props(3,4) [OF c] by simp_all
  have "CHR ''x'' \<notin> set s" "CHR ''X'' \<notin> set s"
    using assms(2) decimal_digit_props(5,6) by blast+
  then have hex: "\<not> prefix ''0x'' s" "\<not> prefix ''0X'' s"
    by (auto dest: set_mono_prefix)
  show ?thesis
    using leading_digits_not_Nil [OF assms]
    by (simp add: parseInt_def sp sign hex Let_def)
qed

lemma parseInt_dec_digits: "parseInt (dec_digits n) 0 = to_js_integer (int n)"
  by (simp add: parseInt_digits [OF dec_digits_not_Nil dec_digits_set]
      leading_digits_dec_digits)

lemma trim_dec_digits: "trim (dec_digits n) = dec_digits n"
  using dec_digits_set [of n] decimal_digit_props(1)
  by (intro trim_no_space) blast

text \<open>Two upper-case hex digits are read, with the radix 16, as the byte they denote.\<close>

lemma parseInt_pair:
  assumes "is_upper_hex a" and "is_upper_hex b"
  shows "parseInt [a, b] 16 = Integer (word_of_nat (16 * hex_value a + hex_value b))"
proof -
  note pa = upper_hex_parse_props [OF assms(1)] and pb = upper_hex_parse_props [OF assms(2)]
  have sp: "dropWhile is_space [a, b] = [a, b]"
    using pa(1) by simp
  have sign: "\<not> prefix ''-'' [a, b]" "\<not> prefix ''+'' [a, b]"
    using pa(2,3) by simp_all
  have hex: "\<not> prefix ''0x'' [a, b]" "\<not> prefix ''0X'' [a, b]"
    using pb(4,5) by simp_all
  have small: "int (16 * hex_value a + hex_value b) < 2 ^ 53"
    using pa(7) pb(7) by simp
  have val: "to_js_integer (int (16 * hex_value a + hex_value b)) =
        Integer (word_of_nat (16 * hex_value a + hex_value b))"
    using small unfolding to_js_integer_def by (simp del: of_nat_add of_nat_mult)
  have "parseInt [a, b] 16 = to_js_integer (int (16 * hex_value a + hex_value b))"
    unfolding parseInt_def Let_def sp
    using sign hex pb(4,5)
    by (simp add: pa(6) pb(6) digits_value_def mult.commute del: of_nat_add of_nat_mult)
  with val show ?thesis by simp
qed

lemma cipher_bytes_upper:
  "list_all is_upper_hex u \<Longrightarrow> even (length u) \<Longrightarrow>
   map (\<lambda>pair. parseInt pair 16) (hex_pairs u) =
   map (\<lambda>v. Integer (word_of_nat v)) (hex_bytes u)"
proof (induction u rule: hex_pairs.induct)
  case (1 a b cs)
  then show ?case by (simp add: parseInt_pair del: of_nat_add of_nat_mult)
next
  case (2 a)
  then show ?case by simp
next
  case 3
  show ?case by simp
qed

lemma hex_bytes_to_upper:
  "list_all is_hex_digit h \<Longrightarrow> hex_bytes (map to_upper h) = hex_bytes h"
  by (induction h rule: hex_bytes.induct) (simp_all add: hex_value_to_upper)

subsection \<open>Lines\<close>

lemma split_newline_single: "CHR 0x0A \<notin> set s \<Longrightarrow> split_newline s = [s]"
  by (induction s) auto

lemma split_newline_append:
  "CHR 0x0A \<notin> set a \<Longrightarrow> split_newline (a @ CHR 0x0A # b) = a # split_newline b"
  by (induction a) auto

lemma remove_first_prefix: "remove_first pat (pat @ s) = s"
proof (cases "pat @ s")
  case Nil
  then show ?thesis by simp
next
  case (Cons c cs)
  have "prefix pat (c # cs)"
    unfolding Cons [symmetric] by simp
  with Cons have "remove_first pat (pat @ s) = drop (length pat) (pat @ s)"
    by simp
  then show ?thesis by simp
qed

subsection \<open>The round trip\<close>

lemma read_line_LENGTH:
  "read_line st (''LENGTH:'' @ dec_digits n) = (Some (to_js_integer (int n)), snd st)"
proof -
  have "prefix ''LENGTH:'' (''LENGTH:'' @ dec_digits n)" by simp
  moreover have "remove_first ''LENGTH:'' (''LENGTH:'' @ dec_digits n) = dec_digits n"
    by (rule remove_first_prefix)
  ultimately show ?thesis
    by (simp only: read_line_def if_True trim_dec_digits parseInt_dec_digits)
qed

lemma read_line_HEX:
  assumes "\<forall>c \<in> set h. \<not> is_space c"
  shows "read_line st (''HEX:'' @ h) = (fst st, h)"
proof -
  have "\<not> prefix ''LENGTH:'' (''HEX:'' @ h)" by simp
  moreover have "prefix ''HEX:'' (''HEX:'' @ h)" by simp
  moreover have "remove_first ''HEX:'' (''HEX:'' @ h) = h"
    by (rule remove_first_prefix)
  ultimately show ?thesis
    by (simp only: read_line_def if_True if_False trim_no_space [OF assms])
qed

lemma file_lines:
  assumes "CHR 0x0A \<notin> set h"
  shows "split_newline (''LENGTH:'' @ dec_digits n @ [CHR 0x0A] @ ''HEX:'' @ h) =
         [''LENGTH:'' @ dec_digits n, ''HEX:'' @ h]"
proof -
  have a: "CHR 0x0A \<notin> set (''LENGTH:'' @ dec_digits n)"
    using dec_digits_set [of n] decimal_digit_props(2) by auto
  have b: "CHR 0x0A \<notin> set (''HEX:'' @ h)"
    using assms by simp
  have "split_newline ((''LENGTH:'' @ dec_digits n) @ CHR 0x0A # (''HEX:'' @ h)) =
        (''LENGTH:'' @ dec_digits n) # split_newline (''HEX:'' @ h)"
    using a by (rule split_newline_append)
  also have "split_newline (''HEX:'' @ h) = [''HEX:'' @ h]"
    using b by (rule split_newline_single)
  finally show ?thesis by simp
qed

lemma file_trim:
  assumes "h \<noteq> []" and "\<not> is_space (last h)"
  shows "trim (''LENGTH:'' @ dec_digits n @ [CHR 0x0A] @ ''HEX:'' @ h) =
         ''LENGTH:'' @ dec_digits n @ [CHR 0x0A] @ ''HEX:'' @ h"
  using assms by (intro trim_id) (simp_all add: is_space_def)

lemma cleaned_hex:
  assumes "list_all is_hex_digit h"
  shows "filter (\<lambda>c. \<not> is_space c) h = h" and "list_all is_upper_hex (map to_upper h)"
  using assms by (induction h) (simp_all add: hex_digit_props)

text \<open>
  The parser on the file content, for a string of hex digits in either case: the length
  is read from the header line (whatever the hidden field holds), the payload is the hex
  string in upper case, and the bytes are those the hex string denotes.
\<close>

lemma parse_file:
  assumes "list_all is_hex_digit h" and "even (length h)" and "32 \<le> length h"
  shows "decryptTextEnhanced_parse
           (''LENGTH:'' @ dec_digits n @ [CHR 0x0A] @ ''HEX:'' @ h) hidden =
         Inr \<lparr>originalLength = Some (to_js_integer (int n)), cipherHex = map to_upper h,
              cipherBytes = map (\<lambda>v. Integer (word_of_nat v)) (hex_bytes h)\<rparr>"
proof -
  let ?content = "''LENGTH:'' @ dec_digits n @ [CHR 0x0A] @ ''HEX:'' @ h"
  note hex = assms(1) and ev = assms(2) and len = assms(3)
  from len have ne: "h \<noteq> []" by auto
  have nosp: "\<forall>c \<in> set h. \<not> is_space c" and nonl: "CHR 0x0A \<notin> set h"
    using hex hex_digit_props(1,2) by (auto simp: list_all_iff)
  have tr: "trim ?content = ?content"
    using ne nosp by (intro file_trim) simp_all
  have pre: "prefix ''LENGTH:'' ?content" by simp
  have st: "foldl read_line (hl, ?content) (split_newline ?content) =
            (Some (to_js_integer (int n)), h)" for hl
    by (simp only: file_lines [OF nonl] foldl.simps read_line_LENGTH read_line_HEX [OF nosp]
        fst_conv snd_conv)
  have cl: "map to_upper (filter (\<lambda>c. \<not> is_space c) h) = map to_upper h"
    by (simp only: cleaned_hex(1) [OF hex])
  have ok: "map to_upper h \<noteq> []" "list_all is_upper_hex (map to_upper h)"
    "even (length (map to_upper h))" "32 \<le> length (map to_upper h)"
    using ne ev len cleaned_hex(2) [OF hex] by simp_all
  have bytes: "map (\<lambda>pair. parseInt pair 16) (hex_pairs (map to_upper h)) =
            map (\<lambda>v. Integer (word_of_nat v)) (hex_bytes h)"
    by (simp only: cipher_bytes_upper [OF ok(2,3)] hex_bytes_to_upper [OF hex])
  have c: "?content \<noteq> []" by simp
  show ?thesis
    unfolding decryptTextEnhanced_parse_def Let_def tr
    by (simp only: c pre if_True if_False st fst_conv snd_conv cl ok bytes simp_thms)
qed

lemma to_upper_upper_hex_list: "list_all is_upper_hex h \<Longrightarrow> map to_upper h = h"
  by (induction h) (simp_all add: to_upper_upper_hex)

lemma to_js_integer_sint:
  "to_js_integer (sint (n :: 54 word)) = Integer n"
proof -
  have "- (2 ^ 53) \<le> sint n" "sint n < 2 ^ 53"
    using sint_ge [of n] sint_lt [of n] by simp_all
  then show ?thesis
    by (simp add: to_js_integer_def)
qed

text \<open>
  C10.  The ciphertext file round-trips.  For every cipher hex string \<open>h\<close> (hex digits in
  either case, an even number of them and at least 32) and every original length \<open>n\<close>
  (an integer from 0 and below \<open>2^53\<close>), the content \<^verbatim>\<open>LENGTH:n\<close>, line feed,
  \<^verbatim>\<open>HEX:h\<close> is what the download handler writes for a stored length that is not 0 (as
  the length of an encrypted plaintext is), and the parser of \<^verbatim>\<open>decryptTextEnhanced\<close>
  reads this content back as \<open>originalLength = n\<close> and the hex payload \<open>h\<close>, whatever the
  hidden length field holds: the payload string is \<open>h\<close> with its letters in upper case,
  which is \<open>h\<close> itself when \<open>h\<close> is in upper case, and the payload bytes are the bytes
  that the digits of \<open>h\<close> denote.
\<close>

theorem cipher_file_round_trip:
  assumes "0 \<le> sint n" and "is_cipher_hex h"
  shows "(n \<noteq> 0 \<longrightarrow>
           downloadFileContent (Some h) (Some n) =
             Some (''LENGTH:'' @ number_to_string n @ [CHR 0x0A] @ ''HEX:'' @ h))
       \<and> decryptTextEnhanced_parse
           (''LENGTH:'' @ number_to_string n @ [CHR 0x0A] @ ''HEX:'' @ h) hidden =
           Inr \<lparr>originalLength = Some (Integer n), cipherHex = map to_upper h,
                cipherBytes = map (\<lambda>v. Integer (word_of_nat v)) (hex_bytes h)\<rparr>
       \<and> (list_all is_upper_hex h \<longrightarrow> map to_upper h = h)"
proof -
  have hex: "list_all is_hex_digit h" and ev: "even (length h)" and len: "32 \<le> length h"
    using assms(2) by (simp_all add: is_cipher_hex_def)
  from len have ne: "h \<noteq> []" by auto
  have str: "number_to_string n = dec_digits (nat (sint n))"
    using assms(1) by (simp add: number_to_string_def)
  have rd: "to_js_integer (int (nat (sint n))) = Integer n"
    using assms(1) by (simp add: to_js_integer_sint)
  have "n \<noteq> 0 \<longrightarrow> downloadFileContent (Some h) (Some n) =
        Some (''LENGTH:'' @ number_to_string n @ [CHR 0x0A] @ ''HEX:'' @ h)"
    using ne by (simp add: downloadFileContent_def)
  moreover have "decryptTextEnhanced_parse
      (''LENGTH:'' @ number_to_string n @ [CHR 0x0A] @ ''HEX:'' @ h) hidden =
      Inr \<lparr>originalLength = Some (Integer n), cipherHex = map to_upper h,
           cipherBytes = map (\<lambda>v. Integer (word_of_nat v)) (hex_bytes h)\<rparr>"
    using parse_file [OF hex ev len, of "nat (sint n)" hidden]
    by (simp only: str rd)
  moreover have "list_all is_upper_hex h \<longrightarrow> map to_upper h = h"
    by (simp add: to_upper_upper_hex_list)
  ultimately show ?thesis by simp
qed

theorem cipher_file_round_trip_witness:
  "0 \<le> sint (17 :: 54 word) \<and> (17 :: 54 word) \<noteq> 0
   \<and> is_cipher_hex ''00112233445566778899aabbccddeeff''
   \<and> downloadFileContent (Some ''00112233445566778899aabbccddeeff'') (Some 17) =
       Some (''LENGTH:17'' @ [CHR 0x0A] @ ''HEX:00112233445566778899aabbccddeeff'')
   \<and> decryptTextEnhanced_parse
       (''LENGTH:17'' @ [CHR 0x0A] @ ''HEX:00112233445566778899aabbccddeeff'') ''0'' =
       Inr \<lparr>originalLength = Some (Integer 17),
            cipherHex = ''00112233445566778899AABBCCDDEEFF'',
            cipherBytes = map Integer
              [0x00, 0x11, 0x22, 0x33, 0x44, 0x55, 0x66, 0x77, 0x88, 0x99, 0xAA, 0xBB, 0xCC,
               0xDD, 0xEE, 0xFF]\<rparr>"
proof -
  have hx: "is_cipher_hex ''00112233445566778899aabbccddeeff''"
    by (simp add: is_cipher_hex_def is_hex_digit_def)
  have s17: "sint (17 :: 54 word) = 17"
    by simp
  have ns: "number_to_string 17 = ''17''"
    by (simp add: number_to_string_def s17 dec_digits.simps digit_char_def)
  have up: "map to_upper ''00112233445566778899aabbccddeeff'' = ''00112233445566778899AABBCCDDEEFF''"
    by (simp add: to_upper_def)
  have bytes: "hex_bytes ''00112233445566778899aabbccddeeff'' =
            [0x00, 0x11, 0x22, 0x33, 0x44, 0x55, 0x66, 0x77, 0x88, 0x99, 0xAA, 0xBB, 0xCC,
             0xDD, 0xEE, 0xFF]"
    by (simp add: hex_value_def digit_value_def)
  have pos: "0 \<le> sint (17 :: 54 word)"
    by simp
  have ne: "(17 :: 54 word) \<noteq> 0"
    by simp
  have "downloadFileContent (Some ''00112233445566778899aabbccddeeff'') (Some 17) =
       Some (''LENGTH:17'' @ [CHR 0x0A] @ ''HEX:00112233445566778899aabbccddeeff'')
   \<and> decryptTextEnhanced_parse
       (''LENGTH:17'' @ [CHR 0x0A] @ ''HEX:00112233445566778899aabbccddeeff'') ''0'' =
       Inr \<lparr>originalLength = Some (Integer 17),
            cipherHex = ''00112233445566778899AABBCCDDEEFF'',
            cipherBytes = map Integer
              [0x00, 0x11, 0x22, 0x33, 0x44, 0x55, 0x66, 0x77, 0x88, 0x99, 0xAA, 0xBB, 0xCC,
               0xDD, 0xEE, 0xFF]\<rparr>"
    using cipher_file_round_trip [OF pos hx, of "''0''"] ne
    unfolding ns up bytes by simp
  with pos ne hx show ?thesis by blast
qed


end
